theory Spec2Isabelle
  imports Complex_Main "HOL-Library.Word" "HOL-Library.Monad_Syntax"
begin

section \<open>The Hermite tensor engine of \<^verbatim>\<open>hermite_multidimensional.hpp\<close>\<close>

text \<open>
  The header fills a dense tensor \<open>H\<close> of \<open>resolution ^ dim\<close> entries by a recurrence,
  driven by an odometer over multi-indices. The embedding below follows the header
  function by function.

  \<^item> A C++ \<open>int\<close> has 32 bits. Its values are written as integers (\<^typ>\<open>int\<close>), and the
    additions that can pass \<open>INT_MAX\<close>, those of \<open>update_iterator\<close> and the size
    \<open>resolution+1\<close> of the table of square roots, are checked: signed overflow is undefined
    behaviour, and the model returns \<open>None\<close> for it. (What a build does with it is the
    compiler's choice. One that wraps computes \<open>1 + 2147483647\<close> as \<open>-2147483648\<close>, which is
    not above \<open>resolution\<close>, and sets the axis to \<open>-2147483648\<close> where the odometer should
    reset it and carry.) The other \<open>int\<close> operations are those of the integers: the
    subtractions \<open>pos[i]-1\<close>, \<open>jumpFrom[ii]-1\<close> and \<open>nextPos[k]-1\<close> take a coordinate of a
    multi-index, which is 1 at least, and the sums and differences of the selection rules
    take the coordinates of half the axes, of at most \<open>resolution\<close> each, whose sum does
    not pass \<open>INT_MAX\<close> in a tensor of \<open>2 ^ 64\<close> entries or fewer. Loop counters, vector
    sizes, the axis \<open>k\<close> and the pending carry axis \<open>jump\<close>, which the code never makes
    negative, are \<^typ>\<open>nat\<close>.
  \<^item> \<open>ullint\<close> (\<open>unsigned long long\<close>) is a 64-bit word: its arithmetic wraps, and an
    \<open>int\<close> that meets it is converted to it.
  \<^item> The element type \<open>T\<close> of the templates is a type variable with ring or field
    operations; rounding of floating-point types is outside the model. An element is
    taken to have the size of a pointer at least and fewer than 2048 bytes, as \<open>double\<close>,
    \<open>long double\<close> and their complex types have.
  \<^item> Every access to a vector or to the tensor is checked: where the C++ would read or
    write out of range, write through the null pointer of a failed \<open>malloc\<close>, fail an
    \<open>assert\<close>, overflow an \<open>int\<close>, or compute a size it cannot hold, the model returns
    \<open>None\<close>.
\<close>

type_synonym ullint = "64 word"

definition rd :: "'a list \<Rightarrow> nat \<Rightarrow> 'a option" where
  "rd xs i = (if i < length xs then Some (xs ! i) else None)"

definition rd_int :: "'a list \<Rightarrow> int \<Rightarrow> 'a option" where
  "rd_int xs i = (if 0 \<le> i \<and> nat i < length xs then Some (xs ! nat i) else None)"

definition wr :: "'a list \<Rightarrow> nat \<Rightarrow> 'a \<Rightarrow> 'a list option" where
  "wr xs i v = (if i < length xs then Some (xs[i := v]) else None)"

subsection \<open>\<open>vec2index\<close>\<close>

text \<open>
  \<^verbatim>\<open>nextCoordinate = pos[0]-1; for (ii < dim-1) nextCoordinate = nextCoordinate*resolution + (pos[ii+1]-1);\<close>
  The loop runs over the entries after the first, in order. Reading \<open>pos[0]\<close> of an empty
  vector is out of range.
\<close>

definition vec2index :: "int list \<Rightarrow> int \<Rightarrow> ullint option" where
  "vec2index pos resolution =
     (case pos of
        [] \<Rightarrow> None
      | p # ps \<Rightarrow>
          Some (fold (\<lambda>x nextCoordinate. nextCoordinate * word_of_int resolution + word_of_int (x - 1))
                  ps (word_of_int (p - 1))))"

subsection \<open>\<open>update_iterator\<close>\<close>

text \<open>The three variables the callers pass by reference.\<close>

record iterator =
  nextPos :: "int list"
  jumpFrom :: "int list"
  jump :: nat

text \<open>The largest \<open>int\<close>.\<close>

definition INT_MAX :: int where
  "INT_MAX = 2147483647"

text \<open>
  \<^verbatim>\<open>if (jump > 0) { jumpFrom[jump] += 1; jump = 0; }\<close> The increment is an \<open>int\<close> addition.
\<close>

definition apply_jump :: "iterator \<Rightarrow> iterator option" where
  "apply_jump s =
     (if jump s > 0 then
        (if jump s < length (jumpFrom s) \<and> jumpFrom s ! jump s + 1 \<le> INT_MAX
         then Some (s\<lparr>jumpFrom := (jumpFrom s)[jump s := jumpFrom s ! jump s + 1], jump := 0\<rparr>)
         else None)
      else Some s)"

text \<open>
  The first loop of \<open>update_iterator\<close>, from axis \<open>ii\<close> on: an axis that would pass
  \<open>resolution\<close> is reset and the loop goes on; the first axis that can be incremented is,
  and the loop breaks. The test is \<^verbatim>\<open>forwardStep[ii] + nextPos[ii] > resolution\<close> with
  \<open>forwardStep[ii] = 1\<close>: the sum is computed in \<open>int\<close> before it is compared, and
  overflows when \<open>nextPos[ii]\<close> is \<open>INT_MAX\<close>. The increment \<open>nextPos[ii] + 1\<close> of the other
  branch is the same sum.
\<close>

function carry_loop :: "nat \<Rightarrow> nat \<Rightarrow> int \<Rightarrow> iterator \<Rightarrow> iterator option" where
  "carry_loop ii ndim resolution s =
     (if ii < ndim then
        (if ii < length (nextPos s) \<and> ii < length (jumpFrom s) \<and> 1 + nextPos s ! ii \<le> INT_MAX then
           (if 1 + nextPos s ! ii > resolution
            then carry_loop (ii + 1) ndim resolution
                   (s\<lparr>nextPos := (nextPos s)[ii := 1],
                      jumpFrom := (jumpFrom s)[ii := 1],
                      jump := ii + 1\<rparr>)
            else Some (s\<lparr>jumpFrom := (jumpFrom s)[ii := nextPos s ! ii],
                         nextPos := (nextPos s)[ii := nextPos s ! ii + 1]\<rparr>))
         else None)
      else Some s)"
  by pat_completeness auto
termination
  by (relation "measure (\<lambda>(ii, ndim, resolution, s). ndim - ii)") auto

text \<open>\<^verbatim>\<open>int k=0; for(; k < dim; k++) { if(nextPos[k] != jumpFrom[k]) break; } return k;\<close>\<close>

function changed_axis :: "nat \<Rightarrow> nat \<Rightarrow> iterator \<Rightarrow> nat option" where
  "changed_axis k ndim s =
     (if k < ndim then
        (if k < length (nextPos s) \<and> k < length (jumpFrom s) then
           (if nextPos s ! k \<noteq> jumpFrom s ! k then Some k else changed_axis (k + 1) ndim s)
         else None)
      else Some k)"
  by pat_completeness auto
termination
  by (relation "measure (\<lambda>(k, ndim, s). ndim - k)") auto

definition update_iterator :: "iterator \<Rightarrow> int \<Rightarrow> nat \<Rightarrow> (nat \<times> iterator) option" where
  "update_iterator s resolution ndim = do {
     s1 \<leftarrow> apply_jump s;
     s2 \<leftarrow> carry_loop 0 ndim resolution s1;
     k \<leftarrow> changed_axis 0 ndim s2;
     Some (k, s2)
   }"

text \<open>\<^verbatim>\<open>std::vector<int> nextPos(dim, 1); std::vector<int> jumpFrom(dim, 1); int jump = 0;\<close>\<close>

definition initial_iterator :: "nat \<Rightarrow> iterator" where
  "initial_iterator ndim = \<lparr>nextPos = replicate ndim 1, jumpFrom = replicate ndim 1, jump = 0\<rparr>"

text \<open>The state after \<open>n\<close> calls of \<open>update_iterator\<close> from the all-ones start.\<close>

fun iterate_update :: "nat \<Rightarrow> int \<Rightarrow> nat \<Rightarrow> iterator option" where
  "iterate_update 0 resolution ndim = Some (initial_iterator ndim)"
| "iterate_update (Suc n) resolution ndim = do {
     s \<leftarrow> iterate_update n resolution ndim;
     (k, s') \<leftarrow> update_iterator s resolution ndim;
     Some s'
   }"

subsection \<open>The body of the fill loops\<close>

text \<open>
  The correction loop, shared by all fills: for each axis \<open>ii\<close> of the given range with
  \<open>jumpFrom[ii] > 1\<close>,
  \<^verbatim>\<open>prevJump[ii] = 1; tmpjump = jumpFrom - prevJump; prevCoordinate = vec2index(tmpjump, resolution);
  H[nextCoordinate] = H[nextCoordinate] - c*H[prevCoordinate];\<close>
  where \<open>c\<close> is the product of the weight and the entry of \<open>R\<close>, which differs between
  the fills and is the parameter \<open>coeff\<close>.
\<close>

fun correction_loop ::
  "(nat \<Rightarrow> 'a::ring option) \<Rightarrow> int \<Rightarrow> nat \<Rightarrow> int list \<Rightarrow> nat \<Rightarrow> nat list \<Rightarrow> 'a list \<Rightarrow> 'a list option" where
  "correction_loop coeff resolution ndim jFrom nextCoordinate [] H = Some H"
| "correction_loop coeff resolution ndim jFrom nextCoordinate (ii # rest) H = do {
     j \<leftarrow> rd jFrom ii;
     if j > 1 then do {
       let prevJump = (replicate ndim 0)[ii := 1];
       let tmpjump = map2 (-) jFrom prevJump;
       prevCoordinate \<leftarrow> vec2index tmpjump resolution;
       c \<leftarrow> coeff ii;
       hn \<leftarrow> rd H nextCoordinate;
       hp \<leftarrow> rd H (unat prevCoordinate);
       H' \<leftarrow> wr H nextCoordinate (hn - c * hp);
       correction_loop coeff resolution ndim jFrom nextCoordinate rest H'
     } else correction_loop coeff resolution ndim jFrom nextCoordinate rest H
   }"

text \<open>\<^verbatim>\<open>(static_cast<T>(jumpFrom[ii]-1))*(R[dim*k+ii])\<close>, of \<open>hermite_multidimensional_cpp\<close>.\<close>

definition hermite_coeff :: "'a::comm_ring_1 list \<Rightarrow> nat \<Rightarrow> nat \<Rightarrow> int list \<Rightarrow> nat \<Rightarrow> 'a option" where
  "hermite_coeff R ndim k jFrom ii = do {
     j \<leftarrow> rd jFrom ii;
     r \<leftarrow> rd R (ndim * k + ii);
     Some (of_int (j - 1) * r)
   }"

text \<open>
  \<^verbatim>\<open>(intsqrt[jumpFrom[ii]-1]/intsqrt[nextPos[k]-1])*(R[k*dim+ii])\<close>, of the interferometer and
  the two squeezers.
\<close>

definition renorm_coeff ::
  "'a::field list \<Rightarrow> 'a list \<Rightarrow> nat \<Rightarrow> nat \<Rightarrow> int list \<Rightarrow> int list \<Rightarrow> nat \<Rightarrow> 'a option" where
  "renorm_coeff intsqrt R ndim k nPos jFrom ii = do {
     j \<leftarrow> rd jFrom ii;
     a \<leftarrow> rd_int intsqrt (j - 1);
     p \<leftarrow> rd nPos k;
     b \<leftarrow> rd_int intsqrt (p - 1);
     r \<leftarrow> rd R (k * ndim + ii);
     Some (a / b * r)
   }"

text \<open>
  \<^verbatim>\<open>std::vector<double> intsqrt(resolution+1, 0);\<close>
  \<^verbatim>\<open>for (int ii = 0; ii<=resolution; ii++) { intsqrt[ii] = std::sqrt((static_cast<double>(ii))); }\<close>
  The size \<open>resolution+1\<close> is an \<open>int\<close> sum: it overflows when \<open>resolution\<close> is \<open>INT_MAX\<close>
  (and then \<open>ii <= resolution\<close> holds of every \<open>int\<close>, so the counter overflows as well). A
  negative size is converted to a size no vector can have, and the constructor throws.
  Otherwise the table has the entries \<open>0 .. resolution\<close>. The square root of the standard
  library is the parameter \<open>sq\<close>.
\<close>

definition intsqrt_table :: "(int \<Rightarrow> 'a) \<Rightarrow> int \<Rightarrow> 'a list option" where
  "intsqrt_table sq resolution =
     (if resolution + 1 \<le> INT_MAX \<and> 0 \<le> resolution + 1
      then Some (map sq [0..resolution]) else None)"

text \<open>One iteration of the loop of \<open>hermite_multidimensional_cpp\<close> (lines 120 to 138).\<close>

definition hermite_step ::
  "'a::comm_ring_1 list \<Rightarrow> 'a list \<Rightarrow> int \<Rightarrow> nat \<Rightarrow> iterator \<times> 'a list \<Rightarrow> (iterator \<times> 'a list) option" where
  "hermite_step R y resolution ndim c = do {
     (k, s) \<leftarrow> update_iterator (fst c) resolution ndim;
     nextCoordinate \<leftarrow> vec2index (nextPos s) resolution;
     fromCoordinate \<leftarrow> vec2index (jumpFrom s) resolution;
     hf \<leftarrow> rd (snd c) (unat fromCoordinate);
     yk \<leftarrow> rd y k;
     H1 \<leftarrow> wr (snd c) (unat nextCoordinate) (hf * yk);
     H2 \<leftarrow> correction_loop (hermite_coeff R ndim k (jumpFrom s)) resolution ndim (jumpFrom s)
             (unat nextCoordinate) [0..<ndim] H1;
     Some (s, H2)
   }"

text \<open>
  One iteration of the loop of \<open>interferometer_cpp\<close> (lines 235 to 270). \<open>fromCoordinate\<close>
  is computed and not used.
\<close>

definition interferometer_limits :: "nat \<Rightarrow> nat \<Rightarrow> nat \<Rightarrow> nat \<times> nat" where
  "interferometer_limits k num_modes ndim =
     (if k > num_modes then (0, num_modes) else (num_modes, ndim))"

definition interferometer_step ::
  "'a::field list \<Rightarrow> 'a list \<Rightarrow> int \<Rightarrow> nat \<Rightarrow> iterator \<times> 'a list \<Rightarrow> (iterator \<times> 'a list) option" where
  "interferometer_step intsqrt R resolution ndim c = do {
     (k, s) \<leftarrow> update_iterator (fst c) resolution ndim;
     let num_modes = ndim div 2;
     let bran = (\<Sum>ii\<leftarrow>[0..<num_modes]. nextPos s ! ii);
     let ketn = (\<Sum>ii\<leftarrow>[num_modes..<ndim]. nextPos s ! ii);
     if bran = ketn then do {
       nextCoordinate \<leftarrow> vec2index (nextPos s) resolution;
       fromCoordinate \<leftarrow> vec2index (jumpFrom s) resolution;
       let (low_lim, high_lim) = interferometer_limits k num_modes ndim;
       H' \<leftarrow> correction_loop (renorm_coeff intsqrt R ndim k (nextPos s) (jumpFrom s)) resolution ndim
               (jumpFrom s) (unat nextCoordinate) [low_lim..<high_lim] (snd c);
       Some (s, H')
     } else Some (s, snd c)
   }"

text \<open>The \<open>%\<close> of C++ on \<open>int\<close>: the remainder has the sign of the dividend.\<close>

definition c_rem :: "int \<Rightarrow> int \<Rightarrow> int" where
  "c_rem a b = sgn a * (\<bar>a\<bar> mod \<bar>b\<bar>)"

text \<open>One iteration of the loop of \<open>squeezing_cpp\<close> (lines 306 to 325).\<close>

definition squeezing_step ::
  "'a::field list \<Rightarrow> 'a list \<Rightarrow> int \<Rightarrow> nat \<Rightarrow> iterator \<times> 'a list \<Rightarrow> (iterator \<times> 'a list) option" where
  "squeezing_step intsqrt R resolution ndim c = do {
     (k, s) \<leftarrow> update_iterator (fst c) resolution ndim;
     bran \<leftarrow> rd (nextPos s) 0;
     ketn \<leftarrow> rd (nextPos s) 1;
     if c_rem bran 2 = c_rem ketn 2 then do {
       nextCoordinate \<leftarrow> vec2index (nextPos s) resolution;
       fromCoordinate \<leftarrow> vec2index (jumpFrom s) resolution;
       H' \<leftarrow> correction_loop (renorm_coeff intsqrt R ndim k (nextPos s) (jumpFrom s)) resolution ndim
               (jumpFrom s) (unat nextCoordinate) [0..<ndim] (snd c);
       Some (s, H')
     } else Some (s, snd c)
   }"

text \<open>One iteration of the loop of \<open>two_mode_squeezing_cpp\<close> (lines 424 to 443).\<close>

definition two_mode_squeezing_step ::
  "'a::field list \<Rightarrow> 'a list \<Rightarrow> int \<Rightarrow> nat \<Rightarrow> iterator \<times> 'a list \<Rightarrow> (iterator \<times> 'a list) option" where
  "two_mode_squeezing_step intsqrt R resolution ndim c = do {
     (k, s) \<leftarrow> update_iterator (fst c) resolution ndim;
     p0 \<leftarrow> rd (nextPos s) 0;
     p1 \<leftarrow> rd (nextPos s) 1;
     p2 \<leftarrow> rd (nextPos s) 2;
     p3 \<leftarrow> rd (nextPos s) 3;
     let bran = p0 - p1;
     let ketn = p2 - p3;
     if bran = ketn then do {
       nextCoordinate \<leftarrow> vec2index (nextPos s) resolution;
       fromCoordinate \<leftarrow> vec2index (jumpFrom s) resolution;
       H' \<leftarrow> correction_loop (renorm_coeff intsqrt R ndim k (nextPos s) (jumpFrom s)) resolution ndim
               (jumpFrom s) (unat nextCoordinate) [0..<ndim] (snd c);
       Some (s, H')
     } else Some (s, snd c)
   }"

text \<open>
  One iteration of the loop of \<open>renorm_hermite_multidimensional_cpp\<close> (lines 182 to 199):
  the base term is \<^verbatim>\<open>H[fromCoordinate] * y[k]/(intsqrt[nextPos[k]-1])\<close>.
\<close>

definition renorm_hermite_step ::
  "'a::field list \<Rightarrow> 'a list \<Rightarrow> 'a list \<Rightarrow> int \<Rightarrow> nat \<Rightarrow> iterator \<times> 'a list \<Rightarrow> (iterator \<times> 'a list) option" where
  "renorm_hermite_step intsqrt R y resolution ndim c = do {
     (k, s) \<leftarrow> update_iterator (fst c) resolution ndim;
     nextCoordinate \<leftarrow> vec2index (nextPos s) resolution;
     fromCoordinate \<leftarrow> vec2index (jumpFrom s) resolution;
     hf \<leftarrow> rd (snd c) (unat fromCoordinate);
     yk \<leftarrow> rd y k;
     p \<leftarrow> rd (nextPos s) k;
     b \<leftarrow> rd_int intsqrt (p - 1);
     H1 \<leftarrow> wr (snd c) (unat nextCoordinate) (hf * yk / b);
     H2 \<leftarrow> correction_loop (renorm_coeff intsqrt R ndim k (nextPos s) (jumpFrom s)) resolution ndim
             (jumpFrom s) (unat nextCoordinate) [0..<ndim] H1;
     Some (s, H2)
   }"

text \<open>
  \<^verbatim>\<open>(intsqrt[jumpFrom[ii]-1]/intsqrt[nextPos[k]-1])\<close>, of \<open>displacement_cpp\<close>, whose
  correction has no entry of \<open>R\<close>.
\<close>

definition displacement_coeff :: "'a::field list \<Rightarrow> nat \<Rightarrow> int list \<Rightarrow> int list \<Rightarrow> nat \<Rightarrow> 'a option" where
  "displacement_coeff intsqrt k nPos jFrom ii = do {
     j \<leftarrow> rd jFrom ii;
     a \<leftarrow> rd_int intsqrt (j - 1);
     p \<leftarrow> rd nPos k;
     b \<leftarrow> rd_int intsqrt (p - 1);
     Some (a / b)
   }"

text \<open>
  One iteration of the loop of \<open>displacement_cpp\<close> (lines 359 to 381): the correction is
  taken on one axis, \<^verbatim>\<open>int ii = 0; if(k==0){ ii = 1; }\<close>.
\<close>

definition displacement_step ::
  "'a::field list \<Rightarrow> 'a list \<Rightarrow> int \<Rightarrow> nat \<Rightarrow> iterator \<times> 'a list \<Rightarrow> (iterator \<times> 'a list) option" where
  "displacement_step intsqrt y resolution ndim c = do {
     (k, s) \<leftarrow> update_iterator (fst c) resolution ndim;
     nextCoordinate \<leftarrow> vec2index (nextPos s) resolution;
     fromCoordinate \<leftarrow> vec2index (jumpFrom s) resolution;
     hf \<leftarrow> rd (snd c) (unat fromCoordinate);
     yk \<leftarrow> rd y k;
     p \<leftarrow> rd (nextPos s) k;
     b \<leftarrow> rd_int intsqrt (p - 1);
     H1 \<leftarrow> wr (snd c) (unat nextCoordinate) (hf * yk / b);
     let ii = (if k = 0 then 1 else 0);
     H2 \<leftarrow> correction_loop (displacement_coeff intsqrt k (nextPos s) (jumpFrom s)) resolution ndim
             (jumpFrom s) (unat nextCoordinate) [ii] H1;
     Some (s, H2)
   }"

subsection \<open>The fills\<close>

text \<open>\<^verbatim>\<open>for (ullint jj = 0; jj < Hdim-1; jj++)\<close>: the state after \<open>n\<close> iterations.\<close>

fun fill_loop :: "('s \<Rightarrow> 's option) \<Rightarrow> nat \<Rightarrow> 's \<Rightarrow> 's option" where
  "fill_loop step 0 c = Some c"
| "fill_loop step (Suc n) c = do { c' \<leftarrow> fill_loop step n c; step c' }"

text \<open>
  \<^verbatim>\<open>int dim = std::sqrt(static_cast<double>(R.size()));\<close>: the integer part of the square
  root, counted as the number of \<open>k \<ge> 1\<close> with \<open>k * k \<le> n\<close>.
\<close>

definition isqrt :: "nat \<Rightarrow> nat" where
  "isqrt n = length (filter (\<lambda>k. k * k \<le> n) [1..<Suc n])"

text \<open>
  \<^verbatim>\<open>ullint Hdim = pow(resolution, dim);\<close> \<open>pow\<close> computes in \<open>double\<close>. Below \<open>2 ^ 53\<close> the
  power is an integer that a \<open>double\<close> holds; \<open>pow\<close> is taken to return it, and the
  conversion to \<open>ullint\<close> gives it back. From \<open>2 ^ 53\<close> on \<open>pow\<close> rounds (\<open>3 ^ 34\<close> comes
  out as \<open>3 ^ 34 + 1\<close>), and the byte count \<open>sizeof(T)*Hdim\<close> of the \<open>malloc\<close> that follows
  is \<open>2 ^ 56\<close> or more for an element of 8 bytes, which no \<open>malloc\<close> serves, or has wrapped
  modulo \<open>2 ^ 64\<close> to the size of a block too small for the tensor (\<open>resolution = 2 ^ 21\<close>
  with three axes asks for 0 bytes); the conversion of a negative power is undefined.
  The model has a size for the powers from 0 to below \<open>2 ^ 53\<close> only.
\<close>

definition tensor_size :: "int \<Rightarrow> nat \<Rightarrow> nat option" where
  "tensor_size resolution ndim =
     (if 0 \<le> resolution ^ ndim \<and> resolution ^ ndim < 2 ^ 53
      then Some (nat (resolution ^ ndim)) else None)"

text \<open>
  \<^verbatim>\<open>H = (T*) malloc(sizeof(T)*Hdim); T val = 0; memset(H,sizeof(val),sizeof(H));\<close>
  What \<open>malloc\<close> answers is the parameter \<open>mem\<close>. \<open>None\<close> is the null pointer: the code does
  not test for it, the \<open>memset\<close> and the write of the seed go through it, and the call has
  no result. \<open>Some m\<close> is a block: \<open>malloc\<close> does not initialise it, and the \<open>memset\<close>
  stores the byte \<open>sizeof(val)\<close>, which is not 0, into the first \<open>sizeof(H)\<close> bytes, the
  size of a pointer, so no entry is zeroed; \<open>m i\<close> is what entry \<open>i\<close> holds after the two
  calls. The block has room for \<open>Hdim\<close> entries: the byte count, \<open>malloc_bytes\<close> below, is
  computed modulo \<open>2 ^ 64\<close>, and with \<open>Hdim < 2 ^ 53\<close>, which \<open>tensor_size\<close> has checked, it
  is the product itself for an element of fewer than 2048 bytes.
\<close>

definition malloc_bytes :: "nat \<Rightarrow> nat \<Rightarrow> 64 word" where
  "malloc_bytes sizeof_T Hdim = word_of_nat sizeof_T * word_of_nat Hdim"

definition allocate :: "(nat \<Rightarrow> 'a) option \<Rightarrow> nat \<Rightarrow> 'a list option" where
  "allocate mem Hdim = (case mem of None \<Rightarrow> None | Some m \<Rightarrow> Some (map m [0..<Hdim]))"

definition hermite_multidimensional_cpp ::
  "'a::comm_ring_1 list \<Rightarrow> 'a list \<Rightarrow> int \<Rightarrow> (nat \<Rightarrow> 'a) option \<Rightarrow> 'a list option" where
  "hermite_multidimensional_cpp R y resolution mem = do {
     let ndim = isqrt (length R);
     Hdim \<leftarrow> tensor_size resolution ndim;
     block \<leftarrow> allocate mem Hdim;
     H \<leftarrow> wr block 0 1;
     (s, H') \<leftarrow> fill_loop (hermite_step R y resolution ndim) (Hdim - 1) (initial_iterator ndim, H);
     Some H'
   }"

definition renorm_hermite_multidimensional_cpp ::
  "(int \<Rightarrow> 'a::field) \<Rightarrow> 'a list \<Rightarrow> 'a list \<Rightarrow> int \<Rightarrow> (nat \<Rightarrow> 'a) option \<Rightarrow> 'a list option" where
  "renorm_hermite_multidimensional_cpp sq R y resolution mem = do {
     let ndim = isqrt (length R);
     Hdim \<leftarrow> tensor_size resolution ndim;
     block \<leftarrow> allocate mem Hdim;
     H \<leftarrow> wr block 0 1;
     intsqrt \<leftarrow> intsqrt_table sq resolution;
     (s, H') \<leftarrow> fill_loop (renorm_hermite_step intsqrt R y resolution ndim) (Hdim - 1)
                 (initial_iterator ndim, H);
     Some H'
   }"

definition interferometer_cpp ::
  "(int \<Rightarrow> 'a::field) \<Rightarrow> 'a list \<Rightarrow> int \<Rightarrow> (nat \<Rightarrow> 'a) option \<Rightarrow> 'a list option" where
  "interferometer_cpp sq R resolution mem = do {
     let ndim = isqrt (length R);
     if ndim mod 2 = 0 then do {
       Hdim \<leftarrow> tensor_size resolution ndim;
       block \<leftarrow> allocate mem Hdim;
       H \<leftarrow> wr block 0 1;
       intsqrt \<leftarrow> intsqrt_table sq resolution;
       (s, H') \<leftarrow> fill_loop (interferometer_step intsqrt R resolution ndim) (Hdim - 1)
                   (initial_iterator ndim, H);
       Some H'
     } else None
   }"

text \<open>\<open>H[0] = std::sqrt(-R[1])\<close>: the square root on \<open>T\<close> is the parameter \<open>sqT\<close>.\<close>

definition squeezing_cpp ::
  "(int \<Rightarrow> 'a::field) \<Rightarrow> ('a \<Rightarrow> 'a) \<Rightarrow> 'a list \<Rightarrow> int \<Rightarrow> (nat \<Rightarrow> 'a) option \<Rightarrow> 'a list option" where
  "squeezing_cpp sq sqT R resolution mem = do {
     let ndim = isqrt (length R);
     Hdim \<leftarrow> tensor_size resolution ndim;
     block \<leftarrow> allocate mem Hdim;
     r1 \<leftarrow> rd R 1;
     H \<leftarrow> wr block 0 (sqT (- r1));
     intsqrt \<leftarrow> intsqrt_table sq resolution;
     if ndim = 2 then do {
       (s, H') \<leftarrow> fill_loop (squeezing_step intsqrt R resolution ndim) (Hdim - 1)
                   (initial_iterator ndim, H);
       Some H'
     } else None
   }"

text \<open>
  \<open>displacement_cpp\<close> has \<open>dim = 2\<close> and the seed \<^verbatim>\<open>H[0] = std::exp(0.5*y[0]*y[1])\<close>: the
  exponential on \<open>T\<close> is the parameter \<open>expT\<close>.
\<close>

definition displacement_cpp ::
  "(int \<Rightarrow> 'a::field) \<Rightarrow> ('a \<Rightarrow> 'a) \<Rightarrow> 'a list \<Rightarrow> int \<Rightarrow> (nat \<Rightarrow> 'a) option \<Rightarrow> 'a list option" where
  "displacement_cpp sq expT y resolution mem = do {
     let ndim = 2;
     Hdim \<leftarrow> tensor_size resolution ndim;
     block \<leftarrow> allocate mem Hdim;
     y0 \<leftarrow> rd y 0;
     y1 \<leftarrow> rd y 1;
     H \<leftarrow> wr block 0 (expT (1 / 2 * y0 * y1));
     intsqrt \<leftarrow> intsqrt_table sq resolution;
     (s, H') \<leftarrow> fill_loop (displacement_step intsqrt y resolution ndim) (Hdim - 1)
                 (initial_iterator ndim, H);
     Some H'
   }"

text \<open>
  \<open>two_mode_squeezing_cpp\<close> alone has a loop after the \<open>memset\<close> that stores 0 in every
  entry, and sends each to \<open>std::cout\<close>:
  \<^verbatim>\<open>for (ullint jj = 0; jj < Hdim; jj++){ H[jj] = 0.0; std::cout << H[jj]; }\<close>
  The result is the tensor together with what was written to the stream.
\<close>

definition two_mode_squeezing_cpp ::
  "(int \<Rightarrow> 'a::field) \<Rightarrow> 'a list \<Rightarrow> int \<Rightarrow> (nat \<Rightarrow> 'a) option \<Rightarrow> ('a list \<times> 'a list) option" where
  "two_mode_squeezing_cpp sq R resolution mem = do {
     let ndim = isqrt (length R);
     if ndim = 4 then do {
       Hdim \<leftarrow> tensor_size resolution ndim;
       block \<leftarrow> allocate mem Hdim;
       let H0 = map (\<lambda>x. 0) block;
       let cout = map (\<lambda>jj. H0 ! jj) [0..<Hdim];
       r2 \<leftarrow> rd R 2;
       H \<leftarrow> wr H0 0 (- r2);
       intsqrt \<leftarrow> intsqrt_table sq resolution;
       (s, H') \<leftarrow> fill_loop (two_mode_squeezing_step intsqrt R resolution ndim) (Hdim - 1)
                   (initial_iterator ndim, H);
       Some (H', cout)
     } else None
   }"

section \<open>Notions of the specification\<close>

text \<open>
  The multi-indices of the tensor: \<open>ndim\<close> coordinates, each from 1 to \<open>resolution\<close>.
\<close>

definition in_box :: "int \<Rightarrow> nat \<Rightarrow> int list \<Rightarrow> bool" where
  "in_box resolution ndim pos \<longleftrightarrow> length pos = ndim \<and> (\<forall>x\<in>set pos. 1 \<le> x \<and> x \<le> resolution)"

text \<open>
  The offset the specification gives a multi-index: coordinate \<open>i\<close>, less one, is digit
  \<open>i\<close> of a number in base \<open>resolution\<close>, axis 0 most significant.
\<close>

definition mixed_radix :: "int \<Rightarrow> int list \<Rightarrow> int" where
  "mixed_radix resolution pos = (\<Sum>i<length pos. (pos ! i - 1) * resolution ^ (length pos - 1 - i))"

text \<open>
  The place of a multi-index in odometer order: the same digits with axis 0 least
  significant, so that axis 0 varies fastest.
\<close>

definition odometer_value :: "int \<Rightarrow> int list \<Rightarrow> int" where
  "odometer_value resolution pos = (\<Sum>i<length pos. (pos ! i - 1) * resolution ^ i)"

text \<open>Unflattening: the digits of an offset, most significant first, each plus one.\<close>

fun unflatten :: "int \<Rightarrow> nat \<Rightarrow> int \<Rightarrow> int list" where
  "unflatten resolution 0 v = []"
| "unflatten resolution (Suc n) v =
     unflatten resolution n (v div resolution) @ [v mod resolution + 1]"

text \<open>
  What holds of the iterator between two calls: both vectors have \<open>ndim\<close> entries, and
  once the pending carry is applied \<open>jumpFrom\<close> agrees with \<open>nextPos\<close> on every axis
  but axis 0.
\<close>

definition settled :: "nat \<Rightarrow> iterator \<Rightarrow> bool" where
  "settled d s \<longleftrightarrow> length (nextPos s) = d \<and> length (jumpFrom s) = d \<and>
     (case apply_jump s of None \<Rightarrow> False | Some s1 \<Rightarrow> tl (jumpFrom s1) = tl (nextPos s))"

text \<open>The multi-index \<open>nextPos\<close> after \<open>n\<close> calls.\<close>

definition position_at :: "nat \<Rightarrow> int \<Rightarrow> nat \<Rightarrow> int list option" where
  "position_at n resolution ndim = map_option nextPos (iterate_update n resolution ndim)"

text \<open>
  The value of \<open>vec2index\<close> as an index into the tensor (0 where \<open>vec2index\<close> has no
  value).
\<close>

definition offset :: "int \<Rightarrow> int list \<Rightarrow> nat" where
  "offset resolution pos = (case vec2index pos resolution of None \<Rightarrow> 0 | Some w \<Rightarrow> unat w)"

text \<open>
  The correction sum of the normalised fills over a list of axes: for each axis \<open>i\<close> of
  the list with \<open>jumpFrom[i] > 1\<close>, the weight
  \<open>sqrt(jumpFrom[i]-1) / sqrt(nextPos[k]-1)\<close> times \<open>R[k*dim+i]\<close> times the entry of \<open>H\<close> at
  the offset of \<open>jumpFrom - e\<^sub>i\<close>.
\<close>

definition correction_sum ::
  "(int \<Rightarrow> 'a::field) \<Rightarrow> 'a list \<Rightarrow> int \<Rightarrow> nat \<Rightarrow> nat \<Rightarrow> int list \<Rightarrow> int list \<Rightarrow> nat list \<Rightarrow> 'a list \<Rightarrow> 'a" where
  "correction_sum sq R resolution ndim k nPos jFrom axes H =
     (\<Sum>ii\<leftarrow>axes. if 1 < jFrom ! ii
         then sq (jFrom ! ii - 1) / sq (nPos ! k - 1) * R ! (k * ndim + ii)
                * H ! offset resolution (jFrom[ii := jFrom ! ii - 1])
         else 0)"

text \<open>The recursive equations of the two loops are unfolded by hand, one iteration at a time.\<close>

declare carry_loop.simps [simp del]
declare changed_axis.simps [simp del]

section \<open>Flattening\<close>

lemma odometer_value_Nil [simp]: "odometer_value r [] = 0"
  by (simp add: odometer_value_def)

lemma odometer_value_Cons [simp]:
  "odometer_value r (x # xs) = (x - 1) + r * odometer_value r xs"
  by (simp add: odometer_value_def sum.lessThan_Suc_shift sum_distrib_left mult_ac
        del: sum.lessThan_Suc)

lemma mixed_radix_Nil [simp]: "mixed_radix r [] = 0"
  by (simp add: mixed_radix_def)

lemma mixed_radix_snoc [simp]:
  "mixed_radix r (xs @ [x]) = mixed_radix r xs * r + (x - 1)"
proof -
  have "(\<Sum>i<length xs. ((xs @ [x]) ! i - 1) * r ^ (length xs - i))
      = (\<Sum>i<length xs. ((xs ! i - 1) * r ^ (length xs - 1 - i)) * r)"
  proof (rule sum.cong)
    fix i assume "i \<in> {..<length xs}"
    then have i: "i < length xs" by simp
    then have "length xs - i = Suc (length xs - 1 - i)" by simp
    then show "((xs @ [x]) ! i - 1) * r ^ (length xs - i) = ((xs ! i - 1) * r ^ (length xs - 1 - i)) * r"
      using i by (simp add: nth_append)
  qed simp
  then show ?thesis
    by (simp add: mixed_radix_def sum_distrib_right)
qed

lemma mixed_radix_rev: "mixed_radix r xs = odometer_value r (rev xs)"
  by (induction xs rule: rev_induct) (simp_all add: mult.commute)

lemma fold_horner:
  "fold (\<lambda>x nc. nc * word_of_int r + word_of_int (x - 1)) xs (word_of_int a :: ullint)
     = word_of_int (a * r ^ length xs + mixed_radix r xs)"
proof (induction xs arbitrary: a rule: rev_induct)
  case Nil
  then show ?case by simp
next
  case (snoc x xs)
  then show ?case by (simp add: wi_hom_syms algebra_simps)
qed

lemma mixed_radix_Cons:
  "mixed_radix r (p # ps) = (p - 1) * r ^ length ps + mixed_radix r ps"
  by (simp add: mixed_radix_def sum.lessThan_Suc_shift del: sum.lessThan_Suc)

lemma vec2index_mixed_radix:
  "pos \<noteq> [] \<Longrightarrow> vec2index pos r = Some (word_of_int (mixed_radix r pos))"
proof (cases pos)
  case Nil
  then show "pos \<noteq> [] \<Longrightarrow> ?thesis" by simp
next
  case (Cons p ps)
  have "vec2index pos r =
      Some (fold (\<lambda>x nc. nc * word_of_int r + word_of_int (x - 1)) ps (word_of_int (p - 1)))"
    unfolding vec2index_def Cons by simp
  also have "\<dots> = Some (word_of_int ((p - 1) * r ^ length ps + mixed_radix r ps))"
    by (simp only: fold_horner)
  finally show ?thesis
    by (simp only: mixed_radix_Cons Cons)
qed

lemma odometer_value_bounds:
  "in_box r n xs \<Longrightarrow> 0 \<le> odometer_value r xs \<and> odometer_value r xs \<le> r ^ n - 1"
proof (induction xs arbitrary: n)
  case Nil
  then show ?case by (simp add: in_box_def)
next
  case (Cons x xs)
  then obtain m where n: "n = Suc m" and box: "in_box r m xs" and x: "1 \<le> x" "x \<le> r"
    by (cases n) (auto simp: in_box_def)
  from Cons.IH [OF box] have ih: "0 \<le> odometer_value r xs" "odometer_value r xs \<le> r ^ m - 1"
    by simp_all
  have r: "1 \<le> r" using x by simp
  have "r * odometer_value r xs \<le> r * (r ^ m - 1)"
    using ih r by (intro mult_left_mono) simp_all
  moreover have "0 \<le> r * odometer_value r xs" using ih r by simp
  ultimately show ?case using x n by (simp add: algebra_simps)
qed

lemma odometer_value_inj:
  "in_box r n xs \<Longrightarrow> in_box r n ys \<Longrightarrow> odometer_value r xs = odometer_value r ys \<Longrightarrow> xs = ys"
proof (induction xs arbitrary: n ys)
  case Nil
  then show ?case by (simp add: in_box_def)
next
  case (Cons x xs)
  then obtain m where n: "n = Suc m" and bx: "in_box r m xs" and x: "1 \<le> x" "x \<le> r"
    by (cases n) (auto simp: in_box_def)
  from Cons.prems n obtain y ys' where ys: "ys = y # ys'" and by': "in_box r m ys'" and y: "1 \<le> y" "y \<le> r"
    by (cases ys) (auto simp: in_box_def)
  from Cons.prems ys have eq: "(x - 1) + r * odometer_value r xs = (y - 1) + r * odometer_value r ys'"
    by simp
  have "((x - 1) + r * odometer_value r xs) mod r = x - 1"
    using x by simp
  moreover have "((y - 1) + r * odometer_value r ys') mod r = y - 1"
    using y by simp
  ultimately have xy: "x = y" using eq by simp
  with eq x have "odometer_value r xs = odometer_value r ys'" by simp
  with Cons.IH [OF bx by'] xy ys show ?case by simp
qed

lemma in_box_rev: "in_box r n (rev xs) = in_box r n xs"
  by (simp add: in_box_def)

lemma uint_word_of_int_small:
  "0 \<le> v \<Longrightarrow> v < 2 ^ 64 \<Longrightarrow> uint (word_of_int v :: ullint) = v"
  by (simp add: uint_word_of_int take_bit_int_eq_self)

lemma unflatten_mixed_radix:
  "in_box r n xs \<Longrightarrow> unflatten r n (mixed_radix r xs) = xs"
proof (induction xs arbitrary: n rule: rev_induct)
  case Nil
  then show ?case by (simp add: in_box_def)
next
  case (snoc x xs)
  then obtain m where n: "n = Suc m" and bx: "in_box r m xs" and x: "1 \<le> x" "x \<le> r"
    by (cases n) (auto simp: in_box_def)
  have "(mixed_radix r xs * r + (x - 1)) div r = mixed_radix r xs"
    using x by simp
  moreover have "(mixed_radix r xs * r + (x - 1)) mod r = x - 1"
    using x by simp
  ultimately show ?case using snoc.IH [OF bx] n by simp
qed

lemma unflatten_in_box:
  assumes "1 \<le> r"
  shows "0 \<le> v \<Longrightarrow> v < r ^ d \<Longrightarrow> in_box r d (unflatten r d v) \<and> mixed_radix r (unflatten r d v) = v"
proof (induction d arbitrary: v)
  case 0
  then show ?case by (simp add: in_box_def)
next
  case (Suc d)
  have r: "0 < r" using assms by simp
  have split: "v = r * (v div r) + v mod r" by simp
  have m: "0 \<le> v mod r" "v mod r < r" using r by simp_all
  have lt: "v div r < r ^ d"
  proof (rule ccontr)
    assume "\<not> v div r < r ^ d"
    then have "r ^ d \<le> v div r" by simp
    then have "r * r ^ d \<le> r * (v div r)" using r by (intro mult_left_mono) simp_all
    moreover have "v < r * r ^ d" using Suc.prems by simp
    ultimately show False using split m(1) by linarith
  qed
  have ge: "0 \<le> v div r" using Suc.prems r by (simp add: pos_imp_zdiv_nonneg_iff)
  from Suc.IH [OF ge lt]
  have ih: "in_box r d (unflatten r d (v div r))" "mixed_radix r (unflatten r d (v div r)) = v div r"
    by simp_all
  have "in_box r (Suc d) (unflatten r (Suc d) v)"
    using ih(1) m by (auto simp: in_box_def)
  moreover have "mixed_radix r (unflatten r (Suc d) v) = v"
    using ih(2) by (simp add: mult.commute)
  ultimately show ?case by simp
qed

lemma mixed_radix_bounds:
  "in_box r d xs \<Longrightarrow> 0 \<le> mixed_radix r xs \<and> mixed_radix r xs < r ^ d"
  using odometer_value_bounds [of r d "rev xs"] by (simp add: mixed_radix_rev in_box_rev)

lemma mixed_radix_inj:
  assumes "in_box r d xs" "in_box r d ys" "mixed_radix r xs = mixed_radix r ys"
  shows "xs = ys"
proof -
  have "rev xs = rev ys"
    using assms by (intro odometer_value_inj [of r d]) (simp_all add: mixed_radix_rev in_box_rev)
  then show ?thesis by simp
qed

lemma in_box_nonempty: "in_box r d xs \<Longrightarrow> 1 \<le> d \<Longrightarrow> xs \<noteq> []"
  by (auto simp: in_box_def)

lemma vec2index_in_box:
  assumes "in_box r d pos" "1 \<le> d" "r ^ d \<le> 2 ^ 64"
  shows "\<exists>w. vec2index pos r = Some w \<and> uint w = mixed_radix r pos"
proof -
  from mixed_radix_bounds [OF assms(1)] assms(3)
  have "0 \<le> mixed_radix r pos" "mixed_radix r pos < 2 ^ 64" by simp_all
  then have "uint (word_of_int (mixed_radix r pos) :: ullint) = mixed_radix r pos"
    by (rule uint_word_of_int_small)
  then show ?thesis
    using vec2index_mixed_radix [OF in_box_nonempty [OF assms(1,2)], of r] by simp
qed

lemma mixed_radix_ones: "mixed_radix r (replicate n 1) = 0"
  by (induction n rule: nat.induct) (simp_all add: mixed_radix_Cons)

text \<open>
  Claim C3, as the code has it. For \<open>ndim \<ge> 1\<close>, \<open>resolution \<ge> 1\<close> and
  \<open>resolution ^ ndim \<le> 2 ^ 64\<close>, \<open>vec2index\<close> sends every multi-index of the box to the
  mixed-radix value of its coordinates (axis 0 most significant), unflattening that offset
  gives the multi-index back, and the map is a bijection from the box onto
  \<open>0 ..< resolution ^ ndim\<close>.
\<close>

theorem vec2index_bijection:
  assumes "1 \<le> ndim" "1 \<le> resolution" "resolution ^ ndim \<le> 2 ^ 64"
  shows "(\<forall>pos. in_box resolution ndim pos \<longrightarrow>
            (\<exists>w. vec2index pos resolution = Some w \<and> uint w = mixed_radix resolution pos \<and>
                 unflatten resolution ndim (uint w) = pos)) \<and>
         bij_betw (\<lambda>pos. uint (the (vec2index pos resolution)))
           {pos. in_box resolution ndim pos} {0..<resolution ^ ndim}"
proof (intro conjI allI impI)
  fix pos assume box: "in_box resolution ndim pos"
  from vec2index_in_box [OF box assms(1,3)] obtain w
    where w: "vec2index pos resolution = Some w" "uint w = mixed_radix resolution pos" by blast
  then show "\<exists>w. vec2index pos resolution = Some w \<and> uint w = mixed_radix resolution pos \<and>
                 unflatten resolution ndim (uint w) = pos"
    using unflatten_mixed_radix [OF box] by simp
next
  let ?f = "\<lambda>pos. uint (the (vec2index pos resolution))"
  have f: "?f pos = mixed_radix resolution pos" if "in_box resolution ndim pos" for pos
    using vec2index_in_box [OF that assms(1,3)] by auto
  show "bij_betw ?f {pos. in_box resolution ndim pos} {0..<resolution ^ ndim}"
    unfolding bij_betw_def
  proof
    show "inj_on ?f {pos. in_box resolution ndim pos}"
      by (rule inj_onI) (auto simp: f intro: mixed_radix_inj)
    show "?f ` {pos. in_box resolution ndim pos} = {0..<resolution ^ ndim}"
    proof (intro equalityI subsetI)
      fix v assume "v \<in> ?f ` {pos. in_box resolution ndim pos}"
      then show "v \<in> {0..<resolution ^ ndim}"
        using mixed_radix_bounds by (auto simp: f)
    next
      fix v assume "v \<in> {0..<resolution ^ ndim}"
      then have "0 \<le> v" "v < resolution ^ ndim" by simp_all
      from unflatten_in_box [OF assms(2) this]
      have "in_box resolution ndim (unflatten resolution ndim v)"
        "?f (unflatten resolution ndim v) = v" by (simp_all add: f)
      then show "v \<in> ?f ` {pos. in_box resolution ndim pos}"
        by (metis (mono_tags, lifting) image_eqI mem_Collect_eq)
    qed
  qed
qed

text \<open>The theorem at \<open>resolution = 3\<close>, \<open>ndim = 3\<close> and the multi-index \<open>[2, 1, 3]\<close>.\<close>

theorem vec2index_bijection_witness:
  "\<exists>w. vec2index [2, 1, 3] 3 = Some w \<and> uint w = mixed_radix 3 [2, 1, 3] \<and>
       unflatten 3 3 (uint w) = [2, 1, 3]"
proof -
  have box: "in_box 3 3 [2, 1, 3]" by (simp add: in_box_def)
  have "(1::nat) \<le> 3" "(1::int) \<le> 3" "(3::int) ^ 3 \<le> 2 ^ 64" by simp_all
  from vec2index_bijection [OF this] box show ?thesis by blast
qed

text \<open>
  Without the bound on \<open>resolution ^ ndim\<close> the claim fails: the offset is an \<open>ullint\<close>
  and wraps. With \<open>resolution = 2\<close> and 65 axes, the multi-index \<open>(2, 1, \<dots>, 1)\<close> has
  mixed-radix value \<open>2 ^ 64\<close> and \<open>vec2index\<close> gives it offset 0, the offset of the
  all-ones multi-index.
\<close>

theorem vec2index_wraps:
  "in_box 2 65 (2 # replicate 64 1) \<and> in_box 2 65 (replicate 65 1) \<and>
   2 # replicate 64 1 \<noteq> (replicate 65 1 :: int list) \<and>
   vec2index (2 # replicate 64 1) 2 = Some 0 \<and> vec2index (replicate 65 1) 2 = Some 0 \<and>
   mixed_radix 2 (2 # replicate 64 1) = 2 ^ 64"
proof -
  have a: "mixed_radix 2 (2 # replicate 64 1) = 2 ^ 64"
    by (simp add: mixed_radix_Cons mixed_radix_ones)
  have "vec2index (2 # replicate 64 1) 2 = Some (word_of_int (mixed_radix 2 (2 # replicate 64 1)))"
    by (rule vec2index_mixed_radix) simp
  then have b: "vec2index (2 # replicate 64 1) 2 = Some 0" by (simp only: a) simp
  have "vec2index (replicate 65 1) 2 = Some (word_of_int (mixed_radix 2 (replicate 65 1)))"
    by (rule vec2index_mixed_radix) simp
  then have c: "vec2index (replicate 65 1) 2 = Some 0" by (simp only: mixed_radix_ones) simp
  have d: "in_box 2 65 (2 # replicate 64 1)" "in_box 2 65 (replicate 65 1)"
    by (simp_all add: in_box_def)
  have e: "2 # replicate 64 1 \<noteq> (replicate 65 1 :: int list)"
  proof
    assume "2 # replicate 64 1 = (replicate 65 1 :: int list)"
    then have "hd (2 # replicate 64 1) = hd (replicate 65 1 :: int list)" by simp
    then show False by simp
  qed
  from a b c d e show ?thesis by blast
qed

section \<open>One call of \<open>update_iterator\<close>\<close>

lemma carry_loop_append:
  assumes "nextPos s = pre @ mid @ x # post" "length pre = ii"
    and "length (nextPos s) = d" "length (jumpFrom s) = d"
    and "\<forall>m\<in>set mid. 1 + m > r \<and> 1 + m \<le> INT_MAX" "\<not> 1 + x > r" "1 + x \<le> INT_MAX"
  shows "carry_loop ii d r s =
     Some \<lparr>nextPos = pre @ replicate (length mid) 1 @ (x + 1) # post,
           jumpFrom = take ii (jumpFrom s) @ replicate (length mid) 1 @ x # drop (ii + length mid + 1) (jumpFrom s),
           jump = (if mid = [] then jump s else ii + length mid)\<rparr>"
  using assms
proof (induction mid arbitrary: pre ii s)
  case Nil
  then have ii: "ii < d" by auto
  have np: "nextPos s ! ii = x" using Nil by (simp add: nth_append)
  have upd: "(nextPos s)[ii := x + 1] = pre @ (x + 1) # post"
    using Nil by (simp add: list_update_append)
  have "carry_loop ii d r s =
      Some (s\<lparr>jumpFrom := (jumpFrom s)[ii := x], nextPos := (nextPos s)[ii := x + 1]\<rparr>)"
    using Nil ii np by (subst carry_loop.simps) simp
  then show ?case using Nil ii upd
    by (cases s) (simp add: upd_conv_take_nth_drop)
next
  case (Cons m ms)
  then have ii: "ii < d" by auto
  have np: "nextPos s ! ii = m" using Cons.prems by (simp add: nth_append)
  have over: "1 + m > r" "1 + m \<le> INT_MAX" using Cons.prems by simp_all
  let ?s = "s\<lparr>nextPos := (nextPos s)[ii := 1], jumpFrom := (jumpFrom s)[ii := 1], jump := ii + 1\<rparr>"
  have step: "carry_loop ii d r s = carry_loop (ii + 1) d r ?s"
    using Cons.prems ii np over by (subst carry_loop.simps) simp
  have np': "nextPos ?s = (pre @ [1]) @ ms @ x # post"
    using Cons.prems by (simp add: list_update_append)
  have "carry_loop (ii + 1) d r ?s =
     Some \<lparr>nextPos = (pre @ [1]) @ replicate (length ms) 1 @ (x + 1) # post,
           jumpFrom = take (ii + 1) (jumpFrom ?s) @ replicate (length ms) 1 @ x # drop (ii + 1 + length ms + 1) (jumpFrom ?s),
           jump = (if ms = [] then jump ?s else ii + 1 + length ms)\<rparr>"
    using Cons.prems by (intro Cons.IH [OF np']) simp_all
  moreover have "take (ii + 1) (jumpFrom ?s) = take ii (jumpFrom s) @ [1]"
    using Cons.prems ii by (simp add: take_Suc_conv_app_nth)
  ultimately show ?case using step by (simp add: replicate_append_same)
qed

lemma changed_axis_first:
  assumes "length (nextPos s) = d" "length (jumpFrom s) = d" "k0 \<le> c" "c < d"
    and "\<forall>j. k0 \<le> j \<and> j < c \<longrightarrow> nextPos s ! j = jumpFrom s ! j"
    and "nextPos s ! c \<noteq> jumpFrom s ! c"
  shows "changed_axis k0 d s = Some c"
  using assms
proof (induction "c - k0" arbitrary: k0)
  case 0
  then have "k0 = c" by simp
  with 0 show ?case by (subst changed_axis.simps) simp
next
  case (Suc n)
  then have "k0 < c" by simp
  with Suc.prems have "changed_axis k0 d s = changed_axis (k0 + 1) d s"
    by (subst changed_axis.simps) simp
  moreover have "changed_axis (k0 + 1) d s = Some c"
    using Suc \<open>k0 < c\<close> by (intro Suc.hyps(1)) auto
  ultimately show ?case by simp
qed

lemma apply_jump_Some:
  assumes "apply_jump s = Some s1"
  shows "nextPos s1 = nextPos s" "length (jumpFrom s1) = length (jumpFrom s)" "jump s1 = 0"
  using assms by (auto simp: apply_jump_def split: if_splits)

lemma update_iterator_carry:
  assumes "settled d s" "nextPos s = replicate c r @ x # post" "x < r"
    and "r \<le> INT_MAX" "c = 0 \<or> r < INT_MAX"
  shows "update_iterator s r d =
     Some (c, \<lparr>nextPos = replicate c 1 @ (x + 1) # post,
               jumpFrom = replicate c 1 @ x # post, jump = c\<rparr>)"
proof -
  from assms(1) obtain s1 where s1: "apply_jump s = Some s1"
    and tl: "tl (jumpFrom s1) = tl (nextPos s)"
    and len: "length (nextPos s) = d" "length (jumpFrom s) = d"
    by (auto simp: settled_def split: option.splits)
  note aj = apply_jump_Some [OF s1]
  have cd: "c < d" using len assms(2) by (metis length_append length_replicate length_Cons add_Suc_right less_add_Suc1)
  have post: "drop (c + 1) (jumpFrom s1) = post"
  proof -
    have "drop (c + 1) (jumpFrom s1) = drop c (tl (jumpFrom s1))" by (simp add: drop_Suc)
    also have "\<dots> = drop (c + 1) (nextPos s)" by (simp add: tl drop_Suc)
    finally show ?thesis using assms(2) by simp
  qed
  let ?s2 = "\<lparr>nextPos = replicate c 1 @ (x + 1) # post,
              jumpFrom = replicate c 1 @ x # post, jump = c\<rparr>"
  have "carry_loop 0 d r s1 =
      Some \<lparr>nextPos = [] @ replicate (length (replicate c r)) 1 @ (x + 1) # post,
            jumpFrom = take 0 (jumpFrom s1) @ replicate (length (replicate c r)) 1 @ x
                         # drop (0 + length (replicate c r) + 1) (jumpFrom s1),
            jump = (if replicate c r = [] then jump s1 else 0 + length (replicate c r))\<rparr>"
    using assms(2,3,4,5) aj len by (intro carry_loop_append) auto
  then have cl: "carry_loop 0 d r s1 = Some ?s2"
    using post aj by (cases "c = 0") simp_all
  have len2: "length (nextPos ?s2) = d" "length (jumpFrom ?s2) = d"
    using len assms(2) by simp_all
  have "changed_axis 0 d ?s2 = Some c"
    using len2 cd by (intro changed_axis_first) (simp_all add: nth_append)
  then show ?thesis
    using s1 cl by (simp add: update_iterator_def)
qed

lemma carry_decomposition:
  assumes "in_box r d xs" "odometer_value r xs < r ^ d - 1"
  shows "\<exists>c x post. xs = replicate c r @ x # post \<and> x < r"
  using assms
proof (induction xs arbitrary: d)
  case Nil
  then show ?case by (simp add: in_box_def)
next
  case (Cons y ys)
  then obtain m where d: "d = Suc m" and box: "in_box r m ys" and y: "1 \<le> y" "y \<le> r"
    by (cases d) (auto simp: in_box_def)
  show ?case
  proof (cases "y < r")
    case True
    then have "y # ys = replicate 0 r @ y # ys \<and> y < r" by simp
    then show ?thesis by blast
  next
    case False
    then have yr: "y = r" using y by simp
    have "r * odometer_value r ys < r * (r ^ m - 1)"
      using Cons.prems(2) d yr by (simp add: algebra_simps)
    then have "odometer_value r ys < r ^ m - 1"
      using y by (simp add: mult_less_cancel_left)
    from Cons.IH [OF box this] obtain c x post where "ys = replicate c r @ x # post" "x < r"
      by blast
    then have "y # ys = replicate (Suc c) r @ x # post \<and> x < r" using yr by simp
    then show ?thesis by blast
  qed
qed

lemma odometer_value_carry:
  "odometer_value r (replicate c 1 @ (x + 1) # post) = odometer_value r (replicate c r @ x # post) + 1"
  by (induction c) (simp_all add: algebra_simps)

lemma settled_after:
  assumes "length post + Suc c = d" "x < INT_MAX"
  shows "settled d \<lparr>nextPos = replicate c 1 @ (x + 1) # post, jumpFrom = replicate c 1 @ x # post, jump = c\<rparr>"
proof (cases "c = 0")
  case True
  then show ?thesis using assms by (simp add: settled_def apply_jump_def)
next
  case False
  have "(replicate c 1 @ x # post)[c := (replicate c 1 @ x # post) ! c + 1] = replicate c 1 @ (x + 1) # post"
    by (simp add: list_update_append nth_append)
  moreover have "(replicate c 1 @ x # post) ! c + 1 \<le> INT_MAX"
    using assms(2) by (simp add: nth_append)
  ultimately show ?thesis using assms(1) False by (simp add: settled_def apply_jump_def)
qed

lemma update_iterator_reachable:
  assumes "settled d s" "in_box r d (nextPos s)" "odometer_value r (nextPos s) < r ^ d - 1"
    and "r \<le> INT_MAX" "r < INT_MAX \<or> d = 1"
  shows "\<exists>k s'. update_iterator s r d = Some (k, s') \<and> k < d \<and> settled d s' \<and>
           in_box r d (nextPos s') \<and>
           odometer_value r (nextPos s') = odometer_value r (nextPos s) + 1 \<and>
           jumpFrom s' = (nextPos s')[k := nextPos s' ! k - 1] \<and> jump s' = k \<and>
           (\<forall>j<k. nextPos s' ! j = 1) \<and> 2 \<le> nextPos s' ! k"
proof -
  from carry_decomposition [OF assms(2,3)] obtain c x post
    where np: "nextPos s = replicate c r @ x # post" and x: "x < r"
    by blast
  let ?s' = "\<lparr>nextPos = replicate c 1 @ (x + 1) # post, jumpFrom = replicate c 1 @ x # post, jump = c\<rparr>"
  have len: "length post + Suc c = d" using assms(2) np by (simp add: in_box_def)
  have c0: "c = 0 \<or> r < INT_MAX" using assms(5) len by auto
  have up: "update_iterator s r d = Some (c, ?s')"
    by (rule update_iterator_carry [OF assms(1) np x assms(4) c0])
  have xm: "x < INT_MAX" using x assms(4) by simp
  have x1: "1 \<le> x" and r1: "1 \<le> r" and post: "\<forall>p\<in>set post. 1 \<le> p \<and> p \<le> r"
    using assms(2) np x by (auto simp: in_box_def)
  have box: "in_box r d (nextPos ?s')"
    using len x x1 r1 post by (auto simp: in_box_def)
  have jf: "jumpFrom ?s' = (nextPos ?s')[c := nextPos ?s' ! c - 1]"
    by (simp add: list_update_append nth_append)
  have ones: "\<forall>j<c. nextPos ?s' ! j = 1" by (simp add: nth_append)
  have two: "2 \<le> nextPos ?s' ! c" using x1 by (simp add: nth_append)
  have cd: "c < d" using len by simp
  have val: "odometer_value r (nextPos ?s') = odometer_value r (nextPos s) + 1"
    using np by (simp add: odometer_value_carry)
  have st: "settled d ?s'" by (rule settled_after [OF len xm])
  have jc: "jump ?s' = c" by simp
  show ?thesis
    by (intro exI [of _ c] exI [of _ ?s'] conjI) (fact up cd st box val jf jc ones two)+
qed

lemma settled_initial: "settled d (initial_iterator d)"
  by (simp add: settled_def initial_iterator_def apply_jump_def)

lemma odometer_value_ones [simp]: "odometer_value r (replicate d 1) = 0"
  by (induction d) simp_all

lemma in_box_ones: "1 \<le> r \<Longrightarrow> in_box r d (replicate d 1)"
  by (simp add: in_box_def)

lemma iterate_update_invariant:
  assumes "1 \<le> r" "int n < r ^ d" "r \<le> INT_MAX" "r < INT_MAX \<or> d = 1"
  shows "\<exists>s. iterate_update n r d = Some s \<and> settled d s \<and> in_box r d (nextPos s) \<and>
           odometer_value r (nextPos s) = int n"
  using assms(2)
proof (induction n)
  case 0
  show ?case using assms(1)
    by (simp add: settled_initial) (simp add: initial_iterator_def in_box_ones)
next
  case (Suc n)
  then obtain s where s: "iterate_update n r d = Some s" "settled d s" "in_box r d (nextPos s)"
      "odometer_value r (nextPos s) = int n"
    by auto
  have "odometer_value r (nextPos s) < r ^ d - 1" using Suc.prems s(4) by simp
  from update_iterator_reachable [OF s(2,3) this assms(3,4)] obtain k s'
    where "update_iterator s r d = Some (k, s')" "settled d s'" "in_box r d (nextPos s')"
      "odometer_value r (nextPos s') = odometer_value r (nextPos s) + 1"
    by blast
  then show ?case using s by simp
qed

section \<open>The sequence of calls\<close>

lemma iterate_update_next:
  assumes "1 \<le> r" "int n < r ^ d - 1" "r \<le> INT_MAX" "r < INT_MAX \<or> d = 1"
  shows "\<exists>s k s'. iterate_update n r d = Some s \<and> update_iterator s r d = Some (k, s') \<and>
           iterate_update (Suc n) r d = Some s' \<and> k < d \<and>
           in_box r d (nextPos s) \<and> in_box r d (nextPos s') \<and> length (jumpFrom s') = d \<and>
           odometer_value r (nextPos s) = int n \<and>
           odometer_value r (nextPos s') = int n + 1 \<and>
           jumpFrom s' = (nextPos s')[k := nextPos s' ! k - 1] \<and> jump s' = k \<and>
           (\<forall>j<k. nextPos s' ! j = 1) \<and> 2 \<le> nextPos s' ! k"
proof -
  have "int n < r ^ d" using assms(2) by simp
  from iterate_update_invariant [OF assms(1) this assms(3,4)] obtain s
    where s: "iterate_update n r d = Some s" "settled d s" "in_box r d (nextPos s)"
      "odometer_value r (nextPos s) = int n"
    by blast
  have "odometer_value r (nextPos s) < r ^ d - 1" using assms(2) s(4) by simp
  from update_iterator_reachable [OF s(2,3) this assms(3,4)] obtain k s'
    where k: "update_iterator s r d = Some (k, s')" "k < d" "settled d s'" "in_box r d (nextPos s')"
      "odometer_value r (nextPos s') = odometer_value r (nextPos s) + 1"
      "jumpFrom s' = (nextPos s')[k := nextPos s' ! k - 1]" "jump s' = k"
      "\<forall>j<k. nextPos s' ! j = 1" "2 \<le> nextPos s' ! k"
    by blast
  have nxt: "iterate_update (Suc n) r d = Some s'" using s(1) k(1) by simp
  have len: "length (jumpFrom s') = d" using k(3) by (simp add: settled_def)
  have val: "odometer_value r (nextPos s') = int n + 1" using k(5) s(4) by simp
  show ?thesis
    by (intro exI [of _ s] exI [of _ k] exI [of _ s'] conjI)
       (fact s(1) k(1) nxt k(2) s(3) k(4) len s(4) val k(6) k(7) k(8) k(9))+
qed

lemma position_at_value:
  assumes "1 \<le> r" "in_box r d q" "r \<le> INT_MAX" "r < INT_MAX \<or> d = 1"
  shows "position_at (nat (odometer_value r q)) r d = Some q"
proof -
  from odometer_value_bounds [OF assms(2)]
  have b: "0 \<le> odometer_value r q" "odometer_value r q \<le> r ^ d - 1" by simp_all
  then have "int (nat (odometer_value r q)) < r ^ d" by simp
  from iterate_update_invariant [OF assms(1) this assms(3,4)] obtain s
    where s: "iterate_update (nat (odometer_value r q)) r d = Some s" "in_box r d (nextPos s)"
      "odometer_value r (nextPos s) = int (nat (odometer_value r q))"
    by blast
  then have "odometer_value r (nextPos s) = odometer_value r q" using b by simp
  then have "nextPos s = q" by (rule odometer_value_inj [OF s(2) assms(2)])
  then show ?thesis using s(1) by (simp add: position_at_def)
qed

lemma position_at_unique:
  assumes "1 \<le> r" "int n < r ^ d" "int m < r ^ d"
    and "position_at n r d = Some p" "position_at m r d = Some p"
    and "r \<le> INT_MAX" "r < INT_MAX \<or> d = 1"
  shows "n = m"
proof -
  from iterate_update_invariant [OF assms(1,2,6,7)] assms(4)
  have "odometer_value r p = int n" by (auto simp: position_at_def)
  moreover from iterate_update_invariant [OF assms(1,3,6,7)] assms(5)
  have "odometer_value r p = int m" by (auto simp: position_at_def)
  ultimately show ?thesis by simp
qed

lemma odometer_value_decrement:
  "i < length xs \<Longrightarrow> odometer_value r (xs[i := xs ! i - 1]) = odometer_value r xs - r ^ i"
proof (induction xs arbitrary: i)
  case Nil
  then show ?case by simp
next
  case (Cons x xs)
  show ?case
  proof (cases i)
    case 0
    then show ?thesis by simp
  next
    case (Suc j)
    then have "j < length xs" using Cons.prems by simp
    from Cons.IH [OF this] show ?thesis using Suc by (simp add: right_diff_distrib)
  qed
qed

lemma in_box_decrement:
  "in_box r d xs \<Longrightarrow> i < d \<Longrightarrow> 1 < xs ! i \<Longrightarrow> in_box r d (xs[i := xs ! i - 1])"
  unfolding in_box_def
  by (auto simp: set_conv_nth nth_list_update)

lemma tmpjump_eq:
  "i < length xs \<Longrightarrow> map2 (-) xs ((replicate (length xs) 0)[i := 1]) = xs[i := xs ! i - (1::int)]"
  by (rule nth_equalityI) (simp_all add: nth_list_update)

lemma rd_in_range: "i < length xs \<Longrightarrow> rd xs i = Some (xs ! i)"
  by (simp add: rd_def)

lemma intsqrt_table_Some:
  "0 \<le> r \<Longrightarrow> r < INT_MAX \<Longrightarrow> intsqrt_table sq r = Some (map sq [0..r])"
  by (simp add: intsqrt_table_def)

lemma intsqrt_table_range:
  "intsqrt_table sq r = Some t \<Longrightarrow> r < INT_MAX"
  by (simp add: intsqrt_table_def split: if_splits)

lemma rd_intsqrt:
  "intsqrt_table sq r = Some t \<Longrightarrow> 0 \<le> i \<Longrightarrow> i \<le> r \<Longrightarrow> rd_int t i = Some (sq i)"
  by (auto simp: rd_int_def intsqrt_table_def nat_less_iff split: if_splits)

lemma index_in_matrix: "k < d \<Longrightarrow> i < d \<Longrightarrow> k * d + i < d * d" for k d i :: nat
proof -
  assume "k < d" "i < d"
  then have "k * d + i < k * d + d" by simp
  also have "\<dots> = (k + 1) * d" by simp
  also have "\<dots> \<le> d * d" using \<open>k < d\<close> by (intro mult_le_mono1) simp
  finally show ?thesis .
qed

lemma int_range:
  assumes "resolution < INT_MAX \<or> resolution = INT_MAX \<and> ndim = 1"
  shows "resolution \<le> INT_MAX" "resolution < INT_MAX \<or> ndim = 1"
  using assms by auto

text \<open>
  The first calls move axis 0 alone, whatever the resolution an \<open>int\<close> can hold: after
  \<open>n + 1 < resolution\<close> calls \<open>nextPos\<close> is \<open>(n + 2, 1, \<dots>, 1)\<close>.
\<close>

lemma iterate_update_first_axis:
  assumes "1 \<le> d" "r \<le> INT_MAX"
  shows "int (Suc n) < r \<Longrightarrow>
     iterate_update (Suc n) r d =
       Some \<lparr>nextPos = (int n + 2) # replicate (d - 1) 1,
             jumpFrom = (int n + 1) # replicate (d - 1) 1, jump = 0\<rparr>"
proof (induction n)
  case 0
  have np: "nextPos (initial_iterator d) = replicate 0 r @ 1 # replicate (d - 1) 1"
    using assms(1) by (cases d) (simp_all add: initial_iterator_def)
  have "update_iterator (initial_iterator d) r d =
      Some (0, \<lparr>nextPos = replicate 0 1 @ (1 + 1) # replicate (d - 1) 1,
                jumpFrom = replicate 0 1 @ 1 # replicate (d - 1) 1, jump = 0\<rparr>)"
    using 0 assms(2) by (intro update_iterator_carry [OF settled_initial np]) simp_all
  then show ?case by simp
next
  case (Suc n)
  let ?s = "\<lparr>nextPos = (int n + 2) # replicate (d - 1) 1,
             jumpFrom = (int n + 1) # replicate (d - 1) 1, jump = 0\<rparr>"
  have s: "iterate_update (Suc n) r d = Some ?s" using Suc by simp
  have len: "length (replicate (d - 1) (1::int)) + Suc 0 = d" using assms(1) by simp
  have "settled d \<lparr>nextPos = replicate 0 1 @ ((int n + 1) + 1) # replicate (d - 1) 1,
                    jumpFrom = replicate 0 1 @ (int n + 1) # replicate (d - 1) 1, jump = 0\<rparr>"
    using Suc.prems assms(2) by (intro settled_after [OF len]) simp
  then have st: "settled d ?s" by (simp add: add.assoc)
  have np: "nextPos ?s = replicate 0 r @ (int n + 2) # replicate (d - 1) 1" by simp
  have "update_iterator ?s r d =
      Some (0, \<lparr>nextPos = replicate 0 1 @ ((int n + 2) + 1) # replicate (d - 1) 1,
                jumpFrom = replicate 0 1 @ (int n + 2) # replicate (d - 1) 1, jump = 0\<rparr>)"
    using Suc.prems assms(2) by (intro update_iterator_carry [OF st np]) simp_all
  then show ?case using s by (simp add: add.assoc)
qed

text \<open>
  With \<open>resolution = INT_MAX\<close> and two axes, the first \<open>INT_MAX - 1\<close> calls bring axis 0 to
  \<open>INT_MAX\<close>, and the next call computes \<open>1 + INT_MAX\<close>.
\<close>

lemma iterate_update_int_max:
  "iterate_update 2147483646 2147483647 2 =
     Some \<lparr>nextPos = [2147483647, 1], jumpFrom = [2147483646, 1], jump = 0\<rparr>"
proof -
  have "iterate_update (Suc 2147483645) 2147483647 2 =
      Some \<lparr>nextPos = (int 2147483645 + 2) # replicate (2 - 1) 1,
            jumpFrom = (int 2147483645 + 1) # replicate (2 - 1) 1, jump = 0\<rparr>"
    by (rule iterate_update_first_axis) (simp_all add: INT_MAX_def)
  then show ?thesis by simp
qed

lemma update_iterator_int_max:
  "update_iterator \<lparr>nextPos = [2147483647, 1], jumpFrom = [2147483646, 1], jump = 0\<rparr> 2147483647 2 = None"
  by (simp add: update_iterator_def apply_jump_def INT_MAX_def) (subst carry_loop.simps, simp add: INT_MAX_def)

lemma iterate_update_past_int_max:
  "iterate_update 2147483647 2147483647 2 = None"
proof -
  have "iterate_update (Suc 2147483646) 2147483647 2 = None"
    by (simp only: iterate_update.simps iterate_update_int_max) (simp add: update_iterator_int_max)
  then show ?thesis by simp
qed

text \<open>
  Claim C5, as the code has it. For \<open>resolution \<ge> 1\<close> below \<open>INT_MAX\<close> (or equal to it,
  with one axis) and \<open>ndim \<ge> 1\<close>, every one of the \<open>resolution ^ ndim - 1\<close> calls made
  from the all-ones start returns: call \<open>n + 1\<close> gives an axis \<open>k < ndim\<close> that is the
  lowest axis where \<open>nextPos\<close> and \<open>jumpFrom\<close> differ, and \<open>jumpFrom\<close> is \<open>nextPos\<close> with
  coordinate \<open>k\<close> decremented by one.
\<close>

theorem update_iterator_same_axis:
  assumes "1 \<le> resolution" "1 \<le> ndim" "int n < resolution ^ ndim - 1"
    and "resolution < INT_MAX \<or> resolution = INT_MAX \<and> ndim = 1"
  shows "\<exists>s k s'. iterate_update n resolution ndim = Some s \<and>
           update_iterator s resolution ndim = Some (k, s') \<and>
           k < ndim \<and> length (nextPos s') = ndim \<and> length (jumpFrom s') = ndim \<and>
           nextPos s' ! k \<noteq> jumpFrom s' ! k \<and>
           (\<forall>j<k. nextPos s' ! j = jumpFrom s' ! j) \<and>
           jumpFrom s' = (nextPos s')[k := nextPos s' ! k - 1]"
proof -
  from iterate_update_next [OF assms(1,3) int_range [OF assms(4)]] obtain s k s'
    where *: "iterate_update n resolution ndim = Some s"
      "update_iterator s resolution ndim = Some (k, s')" "k < ndim"
      "in_box resolution ndim (nextPos s')" "length (jumpFrom s') = ndim"
      "jumpFrom s' = (nextPos s')[k := nextPos s' ! k - 1]"
    by blast
  have len: "length (nextPos s') = ndim" using *(4) by (simp add: in_box_def)
  have "jumpFrom s' ! k = nextPos s' ! k - 1"
    using *(3) len by (subst *(6)) simp
  then have ne: "nextPos s' ! k \<noteq> jumpFrom s' ! k" by simp
  have low: "\<forall>j<k. nextPos s' ! j = jumpFrom s' ! j"
    by (subst *(6)) simp
  show ?thesis
    by (intro exI [of _ s] exI [of _ k] exI [of _ s'] conjI) (fact *(1) *(2) *(3) len *(5) ne low *(6))+
qed

text \<open>The fourth call for \<open>resolution = 3\<close> and two axes.\<close>

theorem update_iterator_same_axis_witness:
  "\<exists>s k s'. iterate_update 3 3 2 = Some s \<and>
           update_iterator s 3 2 = Some (k, s') \<and>
           k < 2 \<and> length (nextPos s') = 2 \<and> length (jumpFrom s') = 2 \<and>
           nextPos s' ! k \<noteq> jumpFrom s' ! k \<and>
           (\<forall>j<k. nextPos s' ! j = jumpFrom s' ! j) \<and>
           jumpFrom s' = (nextPos s')[k := nextPos s' ! k - 1]"
proof -
  have "(1::int) \<le> 3" "(1::nat) \<le> 2" "int 3 < 3 ^ 2 - 1"
    "(3::int) < INT_MAX \<or> (3::int) = INT_MAX \<and> (2::nat) = 1" by (simp_all add: INT_MAX_def)
  from update_iterator_same_axis [OF this] show ?thesis .
qed

text \<open>
  Without the bound on \<open>resolution\<close> the claim fails. With \<open>resolution = 2147483647\<close> and
  two axes, the state after 2147483646 calls has \<open>nextPos = (2147483647, 1)\<close>, and call
  2147483647, one of the \<open>resolution ^ 2 - 1\<close>, computes \<open>1 + 2147483647\<close> in \<open>int\<close>: it has
  no defined result, and no axis \<open>k\<close> with \<open>jumpFrom = nextPos - e\<^sub>k\<close>.
\<close>

theorem update_iterator_same_axis_overflow:
  "int 2147483646 < 2147483647 ^ 2 - 1 \<and>
   iterate_update 2147483646 2147483647 2 =
     Some \<lparr>nextPos = [2147483647, 1], jumpFrom = [2147483646, 1], jump = 0\<rparr> \<and>
   update_iterator \<lparr>nextPos = [2147483647, 1], jumpFrom = [2147483646, 1], jump = 0\<rparr> 2147483647 2 = None"
  by (simp add: iterate_update_int_max update_iterator_int_max)

text \<open>
  Claim C10, as the code has it. For \<open>resolution \<ge> 1\<close> below \<open>INT_MAX\<close> and \<open>ndim \<ge> 1\<close>,
  on each of the \<open>resolution ^ ndim - 1\<close> iterations the call of \<open>update_iterator\<close>
  returns an axis \<open>k < ndim\<close>; the table of square roots is built, and the checked reads
  \<open>y[k]\<close> (of a vector of \<open>ndim\<close> entries), \<open>intsqrt[nextPos[k]-1]\<close> and \<open>R[k*dim+i]\<close> for
  every \<open>i < ndim\<close> (of a matrix of at least \<open>ndim * ndim\<close> entries) are in range; and the
  pending carry axis \<open>jump\<close> is below \<open>ndim\<close>, so that \<open>jumpFrom[jump]\<close> of the next call is
  in range.
\<close>

theorem update_iterator_in_bounds:
  assumes "1 \<le> resolution" "resolution < INT_MAX" "1 \<le> ndim" "int n < resolution ^ ndim - 1"
    and "length y = ndim" "ndim * ndim \<le> length R"
  shows "\<exists>s k s' intsqrt. iterate_update n resolution ndim = Some s \<and>
           update_iterator s resolution ndim = Some (k, s') \<and>
           k < ndim \<and>
           rd y k = Some (y ! k) \<and>
           intsqrt_table sq resolution = Some intsqrt \<and>
           rd_int intsqrt (nextPos s' ! k - 1) = Some (sq (nextPos s' ! k - 1)) \<and>
           (\<forall>i<ndim. rd R (k * ndim + i) = Some (R ! (k * ndim + i))) \<and>
           jump s' < ndim \<and> length (jumpFrom s') = ndim \<and> apply_jump s' \<noteq> None"
proof -
  have rng: "resolution \<le> INT_MAX" "resolution < INT_MAX \<or> ndim = 1" using assms(2) by simp_all
  from iterate_update_next [OF assms(1,4) rng] obtain s k s'
    where *: "iterate_update n resolution ndim = Some s"
      "update_iterator s resolution ndim = Some (k, s')" "k < ndim"
      "in_box resolution ndim (nextPos s')" "length (jumpFrom s') = ndim"
      "jump s' = k" "2 \<le> nextPos s' ! k"
      "jumpFrom s' = (nextPos s')[k := nextPos s' ! k - 1]"
    by blast
  have tbl: "intsqrt_table sq resolution = Some (map sq [0..resolution])"
    using assms(1,2) by (simp add: intsqrt_table_Some)
  have le: "nextPos s' ! k \<le> resolution" using *(3,4) by (simp add: in_box_def)
  then have sq: "rd_int (map sq [0..resolution]) (nextPos s' ! k - 1)
               = Some (sq (nextPos s' ! k - 1))"
    using *(7) by (simp add: rd_intsqrt [OF tbl])
  have y: "rd y k = Some (y ! k)"
    using *(3) assms(5) by (simp add: rd_in_range)
  have R: "\<forall>i<ndim. rd R (k * ndim + i) = Some (R ! (k * ndim + i))"
  proof (intro allI impI)
    fix i assume "i < ndim"
    from index_in_matrix [OF *(3) this] assms(6)
    show "rd R (k * ndim + i) = Some (R ! (k * ndim + i))"
      by (simp add: rd_in_range)
  qed
  have j1: "jump s' < ndim" using *(3,6) by simp
  have len: "length (nextPos s') = ndim" using *(4) by (simp add: in_box_def)
  have "jumpFrom s' ! k = nextPos s' ! k - 1"
    using *(3) len by (subst *(8)) simp
  then have "jumpFrom s' ! jump s' + 1 \<le> INT_MAX" using le assms(2) *(6) by simp
  then have j3: "apply_jump s' \<noteq> None" using j1 *(5) by (simp add: apply_jump_def)
  show ?thesis
    by (intro exI [of _ s] exI [of _ k] exI [of _ s'] exI [of _ "map sq [0..resolution]"] conjI)
       (fact *(1) *(2) *(3) y tbl sq R j1 *(5) j3)+
qed

text \<open>The sixth call for \<open>resolution = 3\<close> and two axes.\<close>

theorem update_iterator_in_bounds_witness:
  "\<exists>s k s' intsqrt. iterate_update 5 3 2 = Some s \<and>
           update_iterator s 3 2 = Some (k, s') \<and>
           k < 2 \<and>
           rd [10, 20 :: int] k = Some ([10, 20] ! k) \<and>
           intsqrt_table (\<lambda>i. i * i) 3 = Some intsqrt \<and>
           rd_int intsqrt (nextPos s' ! k - 1) = Some ((nextPos s' ! k - 1) * (nextPos s' ! k - 1)) \<and>
           (\<forall>i<2. rd [1, 2, 3, 4 :: int] (k * 2 + i) = Some ([1, 2, 3, 4] ! (k * 2 + i))) \<and>
           jump s' < 2 \<and> length (jumpFrom s') = 2 \<and> apply_jump s' \<noteq> None"
proof -
  have "(1::int) \<le> 3" "(3::int) < INT_MAX" "(1::nat) \<le> 2" "int 5 < 3 ^ 2 - 1"
    "length [10, 20 :: int] = 2" "2 * 2 \<le> length [1, 2, 3, 4 :: int]"
    by (simp_all add: INT_MAX_def)
  from update_iterator_in_bounds [OF this, of "\<lambda>i. i * i"] show ?thesis .
qed

text \<open>
  Without the bound on \<open>resolution\<close> the claim fails. With \<open>resolution = 2147483647\<close> the
  size \<open>resolution+1\<close> of the table \<open>intsqrt\<close> overflows, whatever the number of axes, so
  there is no table to read; and with two axes the call of \<open>update_iterator\<close> that
  follows \<open>nextPos = (2147483647, 1)\<close>, iteration 2147483647 of the fill, overflows as
  well and returns no axis.
\<close>

theorem update_iterator_in_bounds_overflow:
  "intsqrt_table (sqrt \<circ> real_of_int) 2147483647 = None \<and>
   int 2147483646 < 2147483647 ^ 2 - 1 \<and>
   iterate_update 2147483647 2147483647 2 = None"
  by (simp add: intsqrt_table_def INT_MAX_def iterate_update_past_int_max)

text \<open>
  Claim C1, as the code has it. For \<open>resolution \<ge> 1\<close> below \<open>INT_MAX\<close> (or equal to it,
  with one axis) and \<open>ndim \<ge> 1\<close>: after \<open>n < resolution ^ ndim\<close> calls \<open>nextPos\<close> is the
  multi-index of the box whose odometer value (axis 0 least significant) is \<open>n\<close>; every
  multi-index of the box is \<open>nextPos\<close> after exactly one number of calls below
  \<open>resolution ^ ndim\<close>; and after each call \<open>n \<ge> 1\<close> the vector \<open>jumpFrom\<close> is \<open>nextPos\<close>
  less one on one axis and was \<open>nextPos\<close> after fewer than \<open>n\<close> calls (the seed, after
  none), as was, for every axis \<open>i\<close> with \<open>jumpFrom[i] > 1\<close>, the vector \<open>tmpjump\<close> that the
  correction loop flattens.
\<close>

theorem odometer_traversal:
  assumes "1 \<le> resolution" "1 \<le> ndim"
    and "resolution < INT_MAX \<or> resolution = INT_MAX \<and> ndim = 1"
  shows "(\<forall>n. int n < resolution ^ ndim \<longrightarrow>
            (\<exists>p. position_at n resolution ndim = Some p \<and> in_box resolution ndim p \<and>
                 odometer_value resolution p = int n)) \<and>
         (\<forall>p. in_box resolution ndim p \<longrightarrow>
            (\<exists>!n. int n < resolution ^ ndim \<and> position_at n resolution ndim = Some p)) \<and>
         (\<forall>n. 0 < n \<and> int n < resolution ^ ndim \<longrightarrow>
            (\<exists>s. iterate_update n resolution ndim = Some s \<and>
                 (\<exists>k<ndim. jumpFrom s = (nextPos s)[k := nextPos s ! k - 1]) \<and>
                 (\<exists>m<n. position_at m resolution ndim = Some (jumpFrom s)) \<and>
                 (\<forall>i<ndim. 1 < jumpFrom s ! i \<longrightarrow>
                    (\<exists>m<n. position_at m resolution ndim
                        = Some (map2 (-) (jumpFrom s) ((replicate ndim 0)[i := 1]))))))"
proof (intro conjI allI impI)
  note rng = int_range [OF assms(3)]
  fix n assume "int n < resolution ^ ndim"
  from iterate_update_invariant [OF assms(1) this rng]
  show "\<exists>p. position_at n resolution ndim = Some p \<and> in_box resolution ndim p \<and>
            odometer_value resolution p = int n"
    by (auto simp: position_at_def)
next
  note rng = int_range [OF assms(3)]
  fix p assume box: "in_box resolution ndim p"
  from odometer_value_bounds [OF box]
  have "int (nat (odometer_value resolution p)) < resolution ^ ndim" by simp
  with position_at_value [OF assms(1) box rng]
  show "\<exists>!n. int n < resolution ^ ndim \<and> position_at n resolution ndim = Some p"
    by (intro ex1I [of _ "nat (odometer_value resolution p)"])
       (auto intro: position_at_unique [OF assms(1) _ _ _ _ rng])
next
  note rng = int_range [OF assms(3)]
  fix n assume n: "0 < n \<and> int n < resolution ^ ndim"
  then obtain n' where n': "n = Suc n'" by (cases n) auto
  with n have "int n' < resolution ^ ndim - 1" by simp
  from iterate_update_next [OF assms(1) this rng] obtain s0 k s
    where *: "iterate_update (Suc n') resolution ndim = Some s" "k < ndim"
      "in_box resolution ndim (nextPos s)" "length (jumpFrom s) = ndim"
      "odometer_value resolution (nextPos s) = int n' + 1"
      "jumpFrom s = (nextPos s)[k := nextPos s ! k - 1]" "2 \<le> nextPos s ! k"
    by blast
  have r0: "0 < resolution" using assms(1) by simp
  have boxj: "in_box resolution ndim (jumpFrom s)"
    using *(2,3,7) by (subst *(6)) (simp add: in_box_decrement)
  have len: "length (nextPos s) = ndim" using *(3) by (simp add: in_box_def)
  have valj: "odometer_value resolution (jumpFrom s) = int n - resolution ^ k"
    using *(2,5) len n' by (subst *(6)) (simp add: odometer_value_decrement)
  have filled: "\<exists>m<n. position_at m resolution ndim = Some q"
    if "in_box resolution ndim q" "odometer_value resolution q < int n" for q
  proof -
    from odometer_value_bounds [OF that(1)] that(2)
    have "nat (odometer_value resolution q) < n" by linarith
    with position_at_value [OF assms(1) that(1) rng] show ?thesis by blast
  qed
  have same: "\<exists>m<n. position_at m resolution ndim = Some (jumpFrom s)"
    using boxj valj r0 by (intro filled) simp_all
  have cross: "\<forall>i<ndim. 1 < jumpFrom s ! i \<longrightarrow>
      (\<exists>m<n. position_at m resolution ndim = Some (map2 (-) (jumpFrom s) ((replicate ndim 0)[i := 1])))"
  proof (intro allI impI)
    fix i assume i: "i < ndim" "1 < jumpFrom s ! i"
    have eq: "map2 (-) (jumpFrom s) ((replicate ndim 0)[i := 1]) = (jumpFrom s)[i := jumpFrom s ! i - 1]"
      using tmpjump_eq [of i "jumpFrom s"] i(1) *(4) by simp
    have "in_box resolution ndim ((jumpFrom s)[i := jumpFrom s ! i - 1])"
      using boxj i by (rule in_box_decrement)
    moreover have "odometer_value resolution ((jumpFrom s)[i := jumpFrom s ! i - 1]) < int n"
    proof -
      have "0 < resolution ^ k" "0 < resolution ^ i" using r0 by simp_all
      moreover have "odometer_value resolution ((jumpFrom s)[i := jumpFrom s ! i - 1])
          = int n - resolution ^ k - resolution ^ i"
        using i(1) *(4) valj by (simp add: odometer_value_decrement)
      ultimately show ?thesis by linarith
    qed
    ultimately show "\<exists>m<n. position_at m resolution ndim
        = Some (map2 (-) (jumpFrom s) ((replicate ndim 0)[i := 1]))"
      unfolding eq by (rule filled)
  qed
  have pred: "\<exists>k<ndim. jumpFrom s = (nextPos s)[k := nextPos s ! k - 1]"
    using *(2,6) by blast
  show "\<exists>s. iterate_update n resolution ndim = Some s \<and>
                 (\<exists>k<ndim. jumpFrom s = (nextPos s)[k := nextPos s ! k - 1]) \<and>
                 (\<exists>m<n. position_at m resolution ndim = Some (jumpFrom s)) \<and>
                 (\<forall>i<ndim. 1 < jumpFrom s ! i \<longrightarrow>
                    (\<exists>m<n. position_at m resolution ndim
                        = Some (map2 (-) (jumpFrom s) ((replicate ndim 0)[i := 1]))))"
    using *(1) pred same cross unfolding n' by blast
qed

text \<open>The traversal for \<open>resolution = 2\<close> and two axes, at the third call.\<close>

theorem odometer_traversal_witness:
  "(\<exists>p. position_at 3 2 2 = Some p \<and> in_box 2 2 p \<and> odometer_value 2 p = int 3) \<and>
   (\<exists>!n. int n < 2 ^ 2 \<and> position_at n 2 2 = Some [1, 2]) \<and>
   (\<exists>s. iterate_update 3 2 2 = Some s \<and>
        (\<exists>k<2. jumpFrom s = (nextPos s)[k := nextPos s ! k - 1]) \<and>
        (\<exists>m<3. position_at m 2 2 = Some (jumpFrom s)) \<and>
        (\<forall>i<2. 1 < jumpFrom s ! i \<longrightarrow>
           (\<exists>m<3. position_at m 2 2 = Some (map2 (-) (jumpFrom s) ((replicate 2 0)[i := 1])))))"
proof -
  have h: "(1::int) \<le> 2" "(1::nat) \<le> 2" "(2::int) < INT_MAX \<or> (2::int) = INT_MAX \<and> (2::nat) = 1"
    by (simp_all add: INT_MAX_def)
  have n: "int 3 < 2 ^ 2" "0 < (3::nat) \<and> int 3 < 2 ^ 2" by simp_all
  have box: "in_box 2 2 [1, 2]" by (simp add: in_box_def)
  from odometer_traversal [OF h] n box show ?thesis by blast
qed

text \<open>
  Without the bound on \<open>resolution\<close> the claim fails. With \<open>resolution = 2147483647\<close> and
  two axes the traversal stops at the multi-index \<open>(2147483647, 1)\<close>, the one reached
  after 2147483646 calls: the next call, which should reset axis 0 and carry to
  \<open>(1, 2)\<close>, computes \<open>1 + 2147483647\<close> in \<open>int\<close>, and \<open>nextPos\<close> after 2147483647 calls, of
  the \<open>resolution ^ 2 - 1\<close> that the fill makes, is not defined.
\<close>

theorem odometer_traversal_overflow:
  "int 2147483647 < 2147483647 ^ 2 \<and>
   position_at 2147483646 2147483647 2 = Some [2147483647, 1] \<and>
   position_at 2147483647 2147483647 2 = None"
  by (simp add: position_at_def iterate_update_int_max iterate_update_past_int_max)

section \<open>The fill of the known case\<close>

text \<open>The three calls of \<open>update_iterator\<close> and the four offsets for \<open>resolution = 2\<close> and two axes.\<close>

lemma update_2_2:
  "update_iterator \<lparr>nextPos = [1, 1], jumpFrom = [1, 1], jump = 0\<rparr> 2 2
     = Some (0, \<lparr>nextPos = [2, 1], jumpFrom = [1, 1], jump = 0\<rparr>)"
  "update_iterator \<lparr>nextPos = [2, 1], jumpFrom = [1, 1], jump = 0\<rparr> 2 2
     = Some (1, \<lparr>nextPos = [1, 2], jumpFrom = [1, 1], jump = Suc 0\<rparr>)"
  "update_iterator \<lparr>nextPos = [1, 2], jumpFrom = [1, 1], jump = Suc 0\<rparr> 2 2
     = Some (0, \<lparr>nextPos = [2, 2], jumpFrom = [1, 2], jump = 0\<rparr>)"
  by code_simp+

lemma vec2index_2_2:
  "vec2index [1, 1] 2 = Some 0" "vec2index [1, 2] 2 = Some 1"
  "vec2index [2, 1] 2 = Some 2" "vec2index [2, 2] 2 = Some 3"
  by (simp_all add: vec2index_def)

lemma isqrt_length_4: "isqrt (length [a, b, c, d]) = 2"
proof -
  have "isqrt (Suc (Suc (Suc (Suc 0)))) = 2" by code_simp
  then show ?thesis by simp
qed

lemma tensor_size_2_2: "tensor_size 2 2 = Some 4"
  by (simp add: tensor_size_def)

lemma allocate_4: "allocate (Some mem) 4 = Some [mem 0, mem 1, mem 2, mem 3]"
proof -
  have "[0..<4] = [0, 1, 2, 3]" by code_simp
  then show ?thesis by (simp add: allocate_def)
qed

lemma upt_2: "[0..<2] = [0, Suc 0]"
  by code_simp

lemma replicate_2: "replicate 2 x = [x, x]"
  by (simp add: numeral_2_eq_2)

lemma fill_loop_3:
  "fill_loop step 3 c = do { c1 \<leftarrow> step c; c2 \<leftarrow> step c1; step c2 }"
  by (simp add: numeral_3_eq_3)

lemma hermite_fill_2_2:
  "fill_loop (hermite_step [0, 1, 1, 0] [0, 0] 2 2) 3 (initial_iterator 2, [1, a, b, c])
      = Some (\<lparr>nextPos = [2, 2], jumpFrom = [1, 2], jump = 0\<rparr>, [1, 0, 0, - 1 :: 'a :: comm_ring_1])"
proof -
  let ?R = "[0, 1, 1, 0 :: 'a]" and ?y = "[0, 0 :: 'a]"
  have s1: "hermite_step ?R ?y 2 2 (\<lparr>nextPos = [1, 1], jumpFrom = [1, 1], jump = 0\<rparr>, [1, a, b, c])
      = Some (\<lparr>nextPos = [2, 1], jumpFrom = [1, 1], jump = 0\<rparr>, [1, a, 0, c])"
    by (simp add: hermite_step_def update_2_2 vec2index_2_2 rd_def wr_def upt_2)
  have s2: "hermite_step ?R ?y 2 2 (\<lparr>nextPos = [2, 1], jumpFrom = [1, 1], jump = 0\<rparr>, [1, a, 0, c])
      = Some (\<lparr>nextPos = [1, 2], jumpFrom = [1, 1], jump = Suc 0\<rparr>, [1, 0, 0, c])"
    by (simp add: hermite_step_def update_2_2 vec2index_2_2 rd_def wr_def upt_2)
  have s3: "hermite_step ?R ?y 2 2 (\<lparr>nextPos = [1, 2], jumpFrom = [1, 1], jump = Suc 0\<rparr>, [1, 0, 0, c])
      = Some (\<lparr>nextPos = [2, 2], jumpFrom = [1, 2], jump = 0\<rparr>, [1, 0, 0, - 1])"
    by (simp add: hermite_step_def update_2_2 vec2index_2_2 rd_def wr_def upt_2 hermite_coeff_def
        replicate_2)
  have init: "initial_iterator 2 = \<lparr>nextPos = [1, 1], jumpFrom = [1, 1], jump = 0\<rparr>"
    by (simp add: initial_iterator_def replicate_2)
  show ?thesis
    unfolding fill_loop_3 init by (simp add: s1 s2 s3)
qed

text \<open>
  Claim C8. For \<open>resolution = 2\<close>, \<open>R = [0, 1, 1, 0]\<close> (so two axes) and \<open>y = [0, 0]\<close>,
  \<open>hermite_multidimensional_cpp\<close> returns the tensor \<open>[1, 0, 0, -1]\<close>, over any
  commutative ring and whatever the block that \<open>malloc\<close> returned held.
\<close>

theorem hermite_known_case:
  "hermite_multidimensional_cpp [0, 1, 1, 0] [0, 0] 2 (Some mem) = Some [1, 0, 0, - 1 :: 'a :: comm_ring_1]"
  unfolding hermite_multidimensional_cpp_def isqrt_length_4 Let_def
  by (simp add: tensor_size_2_2 allocate_4 wr_def hermite_fill_2_2)

section \<open>The correction loop and the Hermite recurrence\<close>

lemma vec2index_offset:
  assumes "in_box r d pos" "1 \<le> d" "r ^ d \<le> 2 ^ 64"
  shows "\<exists>w. vec2index pos r = Some w \<and> unat w = offset r pos"
    and "offset r pos = nat (mixed_radix r pos)"
    and "offset r pos < nat (r ^ d)"
proof -
  from vec2index_in_box [OF assms] obtain w
    where w: "vec2index pos r = Some w" "uint w = mixed_radix r pos" by blast
  then show "\<exists>w. vec2index pos r = Some w \<and> unat w = offset r pos"
    by (simp add: offset_def)
  show eq: "offset r pos = nat (mixed_radix r pos)"
    using w by (simp add: offset_def unat_eq_nat_uint)
  from mixed_radix_bounds [OF assms(1)] show "offset r pos < nat (r ^ d)"
    unfolding eq by simp
qed

lemma offset_inj:
  assumes "in_box r d p" "in_box r d q" "1 \<le> d" "r ^ d \<le> 2 ^ 64" "offset r p = offset r q"
  shows "p = q"
proof -
  have "nat (mixed_radix r p) = nat (mixed_radix r q)"
    using assms vec2index_offset(2) [of r d] by simp
  moreover have "0 \<le> mixed_radix r p" "0 \<le> mixed_radix r q"
    using mixed_radix_bounds assms(1,2) by blast+
  ultimately have "mixed_radix r p = mixed_radix r q" by simp
  then show ?thesis by (rule mixed_radix_inj [OF assms(1,2)])
qed

lemma rd_Some [simp]: "i < length xs \<Longrightarrow> rd xs i = Some (xs ! i)"
  by (simp add: rd_def)

lemma wr_Some [simp]: "i < length xs \<Longrightarrow> wr xs i v = Some (xs[i := v])"
  by (simp add: wr_def)

lemma correction_loop_result:
  fixes H0 :: "'a::ring list"
  assumes box: "in_box r d jf" and d: "1 \<le> d" and size: "r ^ d \<le> 2 ^ 64"
    and len: "length H0 = nat (r ^ d)" and nx: "nx < length H0"
    and axes: "\<forall>ii\<in>set axes. ii < d \<and>
           (1 < jf ! ii \<longrightarrow> coeff ii \<noteq> None \<and> offset r (jf[ii := jf ! ii - 1]) \<noteq> nx)"
  shows "length H = length H0 \<Longrightarrow> \<forall>i. i \<noteq> nx \<longrightarrow> H ! i = H0 ! i \<Longrightarrow>
     correction_loop coeff r d jf nx axes H =
     Some (H[nx := foldl (\<lambda>acc ii. if 1 < jf ! ii
                      then acc - the (coeff ii) * H0 ! offset r (jf[ii := jf ! ii - 1]) else acc)
                    (H ! nx) axes])"
  using axes
proof (induction axes arbitrary: H)
  case Nil
  then show ?case by simp
next
  case (Cons ii rest)
  let ?f = "\<lambda>acc ii. if 1 < jf ! ii
                      then acc - the (coeff ii) * H0 ! offset r (jf[ii := jf ! ii - 1]) else acc"
  have lenjf: "length jf = d" using box by (simp add: in_box_def)
  have ii: "ii < d" using Cons.prems by simp
  have rest: "\<forall>ii\<in>set rest. ii < d \<and>
           (1 < jf ! ii \<longrightarrow> coeff ii \<noteq> None \<and> offset r (jf[ii := jf ! ii - 1]) \<noteq> nx)"
    using Cons.prems by simp
  show ?case
  proof (cases "1 < jf ! ii")
    case False
    then show ?thesis
      using Cons.IH [OF Cons.prems(1,2) rest] ii lenjf by simp
  next
    case True
    let ?q = "jf[ii := jf ! ii - 1]"
    have tmp: "map2 (-) jf ((replicate d 0)[ii := 1]) = ?q"
      using tmpjump_eq [of ii jf] ii lenjf by simp
    have boxq: "in_box r d ?q" using box ii True by (rule in_box_decrement)
    from vec2index_offset [OF boxq d size] obtain w
      where w: "vec2index ?q r = Some w" "unat w = offset r ?q" and lt: "offset r ?q < nat (r ^ d)"
      by blast
    from Cons.prems True obtain c where c: "coeff ii = Some c" and ne: "offset r ?q \<noteq> nx"
      by auto
    let ?v = "H ! nx - c * H ! offset r ?q"
    have hp: "H ! offset r ?q = H0 ! offset r ?q" using Cons.prems(2) ne by simp
    have step: "correction_loop coeff r d jf nx (ii # rest) H
        = correction_loop coeff r d jf nx rest (H[nx := ?v])"
      using ii lenjf True tmp w c lt len nx Cons.prems(1) by simp
    have v: "?f (H ! nx) ii = ?v" using True c hp by simp
    have "correction_loop coeff r d jf nx rest (H[nx := ?v])
        = Some ((H[nx := ?v])[nx := foldl ?f ((H[nx := ?v]) ! nx) rest])"
      using Cons.prems(1,2) by (intro Cons.IH [OF _ _ rest]) simp_all
    also have "\<dots> = Some (H[nx := foldl ?f ?v rest])"
      using nx Cons.prems(1) by simp
    also have "\<dots> = Some (H[nx := foldl ?f (H ! nx) (ii # rest)])"
      by (simp only: foldl_Cons v)
    finally show ?thesis by (simp only: step)
  qed
qed

lemma foldl_minus_sum:
  fixes a :: "'a::ring"
  shows "foldl (\<lambda>acc ii. if P ii then acc - t ii else acc) a xs
       = a - (\<Sum>ii\<leftarrow>xs. if P ii then t ii else 0)"
  by (induction xs arbitrary: a) (simp_all add: algebra_simps)

lemma isqrt_square_le: "isqrt n * isqrt n \<le> n"
proof (cases "isqrt n = 0")
  case True
  then show ?thesis by simp
next
  case False
  let ?S = "{k \<in> {1..<Suc n}. k * k \<le> n}"
  have "distinct (filter (\<lambda>k. k * k \<le> n) [1..<Suc n])" by simp
  then have "length (filter (\<lambda>k. k * k \<le> n) [1..<Suc n])
      = card (set (filter (\<lambda>k. k * k \<le> n) [1..<Suc n]))"
    by (simp only: distinct_card)
  moreover have "set (filter (\<lambda>k. k * k \<le> n) [1..<Suc n]) = ?S" by auto
  ultimately have card: "isqrt n = card ?S"
    unfolding isqrt_def by simp
  show ?thesis
  proof (rule ccontr)
    assume "\<not> isqrt n * isqrt n \<le> n"
    then have big: "n < isqrt n * isqrt n" by simp
    have "?S \<subseteq> {1..<isqrt n}"
    proof
      fix k assume "k \<in> ?S"
      then have k: "1 \<le> k" "k * k \<le> n" by simp_all
      have "k < isqrt n"
      proof (rule ccontr)
        assume "\<not> k < isqrt n"
        then have "isqrt n \<le> k" by simp
        then have "isqrt n * isqrt n \<le> k * k" by (intro mult_le_mono)
        with big k(2) show False by simp
      qed
      with k(1) show "k \<in> {1..<isqrt n}" by simp
    qed
    then have "card ?S \<le> card {1..<isqrt n}" by (intro card_mono) simp_all
    also have "card {1..<isqrt n} = isqrt n - 1" by simp
    finally have "isqrt n \<le> isqrt n - 1" by (simp only: card [symmetric])
    with False show False by arith
  qed
qed

lemma hermite_coeff_Some:
  fixes R :: "'a::comm_ring_1 list"
  assumes "length jf = d" "ii < d" "k < d" "d * d \<le> length R"
  shows "hermite_coeff R d k jf ii = Some (of_int (jf ! ii - 1) * R ! (d * k + ii))"
proof -
  have "d * k + ii < d * d" using index_in_matrix [OF assms(3,2)] by (simp add: mult.commute)
  then show ?thesis using assms by (simp add: hermite_coeff_def)
qed

lemma predecessor_differs:
  assumes "jf = np[k := np ! k - 1]" "k < length np" "ii < length np"
  shows "jf[ii := jf ! ii - 1] \<noteq> (np :: int list)"
proof
  assume eq: "jf[ii := jf ! ii - 1] = np"
  have "(jf[ii := jf ! ii - 1]) ! k < np ! k"
    using assms by (cases "ii = k") simp_all
  with eq show False by simp
qed

lemma hermite_step_result:
  fixes H :: "'a::comm_ring_1 list"
  assumes up: "update_iterator s r d = Some (k, s')" and k: "k < d"
    and box: "in_box r d (nextPos s')"
    and jf: "jumpFrom s' = (nextPos s')[k := nextPos s' ! k - 1]" and two: "2 \<le> nextPos s' ! k"
    and d: "1 \<le> d" and size: "r ^ d \<le> 2 ^ 64" and len: "length H = nat (r ^ d)"
    and y: "d \<le> length y" and R: "d * d \<le> length R"
  shows "hermite_step R y r d (s, H) =
     Some (s', H[offset r (nextPos s') :=
        H ! offset r (jumpFrom s') * y ! k -
        (\<Sum>ii\<leftarrow>[0..<d]. if 1 < jumpFrom s' ! ii
            then of_int (jumpFrom s' ! ii - 1) * R ! (d * k + ii)
                   * H ! offset r ((jumpFrom s')[ii := jumpFrom s' ! ii - 1])
            else 0)])"
proof -
  let ?np = "nextPos s'" and ?jf = "jumpFrom s'"
  let ?nx = "offset r ?np"
  have lennp: "length ?np = d" using box by (simp add: in_box_def)
  have boxj: "in_box r d ?jf"
    using box k two unfolding jf by (intro in_box_decrement) simp_all
  have lenjf: "length ?jf = d" using boxj by (simp add: in_box_def)
  from vec2index_offset [OF box d size] obtain wn
    where wn: "vec2index ?np r = Some wn" "unat wn = ?nx" and nx: "?nx < nat (r ^ d)" by blast
  from vec2index_offset [OF boxj d size] obtain wf
    where wf: "vec2index ?jf r = Some wf" "unat wf = offset r ?jf"
      and fr: "offset r ?jf < nat (r ^ d)" by blast
  let ?H1 = "H[?nx := H ! offset r ?jf * y ! k]"
  let ?coeff = "hermite_coeff R d k ?jf"
  let ?f = "\<lambda>acc ii. if 1 < ?jf ! ii
                      then acc - the (?coeff ii) * H ! offset r (?jf[ii := ?jf ! ii - 1]) else acc"
  have axes: "\<forall>ii\<in>set [0..<d]. ii < d \<and>
           (1 < ?jf ! ii \<longrightarrow> ?coeff ii \<noteq> None \<and> offset r (?jf[ii := ?jf ! ii - 1]) \<noteq> ?nx)"
  proof (intro ballI conjI impI)
    fix ii assume "ii \<in> set [0..<d]"
    then show ii: "ii < d" by simp
    show "?coeff ii \<noteq> None" using hermite_coeff_Some [OF lenjf ii k R] by simp
    assume gt: "1 < ?jf ! ii"
    have "in_box r d (?jf[ii := ?jf ! ii - 1])" using boxj ii gt by (rule in_box_decrement)
    moreover have "?jf[ii := ?jf ! ii - 1] \<noteq> ?np"
      using jf k ii lennp by (intro predecessor_differs [of _ _ k]) simp_all
    ultimately show "offset r (?jf[ii := ?jf ! ii - 1]) \<noteq> ?nx"
      using offset_inj [OF _ box d size] by blast
  qed
  have "correction_loop ?coeff r d ?jf ?nx [0..<d] ?H1
      = Some (?H1[?nx := foldl ?f (?H1 ! ?nx) [0..<d]])"
    using nx len by (intro correction_loop_result [OF boxj d size len _ axes]) simp_all
  also have "\<dots> = Some (H[?nx := foldl ?f (H ! offset r ?jf * y ! k) [0..<d]])"
    using nx len by simp
  also have "foldl ?f (H ! offset r ?jf * y ! k) [0..<d]
      = H ! offset r ?jf * y ! k - (\<Sum>ii\<leftarrow>[0..<d]. if 1 < ?jf ! ii
            then the (?coeff ii) * H ! offset r (?jf[ii := ?jf ! ii - 1]) else 0)"
    by (rule foldl_minus_sum)
  also have "(\<Sum>ii\<leftarrow>[0..<d]. if 1 < ?jf ! ii
            then the (?coeff ii) * H ! offset r (?jf[ii := ?jf ! ii - 1]) else 0)
      = (\<Sum>ii\<leftarrow>[0..<d]. if 1 < ?jf ! ii
            then of_int (?jf ! ii - 1) * R ! (d * k + ii) * H ! offset r (?jf[ii := ?jf ! ii - 1])
            else 0)"
    by (rule arg_cong [where f = sum_list], rule map_cong)
       (simp_all add: hermite_coeff_Some [OF lenjf _ k R])
  finally have cl: "correction_loop ?coeff r d ?jf ?nx [0..<d] ?H1
      = Some (H[?nx := H ! offset r ?jf * y ! k - (\<Sum>ii\<leftarrow>[0..<d]. if 1 < ?jf ! ii
            then of_int (?jf ! ii - 1) * R ! (d * k + ii) * H ! offset r (?jf[ii := ?jf ! ii - 1])
            else 0)])" .
  have "k < length y" using k y by simp
  then show ?thesis
    using up wn wf nx fr len cl by (simp add: hermite_step_def)
qed

lemma hermite_fill_state:
  fixes H0 :: "'a::comm_ring_1 list"
  assumes r: "1 \<le> r" and d: "1 \<le> d" and size: "r ^ d \<le> 2 ^ 64"
    and len: "length H0 = nat (r ^ d)" and y: "d \<le> length y" and R: "d * d \<le> length R"
    and rng: "r \<le> INT_MAX" "r < INT_MAX \<or> d = 1"
  shows "int n < r ^ d \<Longrightarrow>
     \<exists>s H. fill_loop (hermite_step R y r d) n (initial_iterator d, H0) = Some (s, H) \<and>
           iterate_update n r d = Some s \<and> length H = length H0"
proof (induction n)
  case 0
  then show ?case by simp
next
  case (Suc n)
  then have n: "int n < r ^ d - 1" by simp
  with Suc.IH obtain s H
    where H: "fill_loop (hermite_step R y r d) n (initial_iterator d, H0) = Some (s, H)"
      "iterate_update n r d = Some s" "length H = length H0"
    by auto
  from iterate_update_next [OF r n rng] H(2) obtain k s'
    where *: "update_iterator s r d = Some (k, s')" "iterate_update (Suc n) r d = Some s'"
      "k < d" "in_box r d (nextPos s')" "jumpFrom s' = (nextPos s')[k := nextPos s' ! k - 1]"
      "2 \<le> nextPos s' ! k"
    by auto
  have lenH: "length H = nat (r ^ d)" using H(3) len by simp
  from hermite_step_result [OF *(1,3,4,5,6) d size lenH y R]
  show ?case using H *(2) by simp
qed

lemma tensor_size_Some:
  "1 \<le> r \<Longrightarrow> r ^ d < 2 ^ 53 \<Longrightarrow> tensor_size r d = Some (nat (r ^ d))"
  by (simp add: tensor_size_def)

lemma length_allocate: "allocate mem n = Some block \<Longrightarrow> length block = n"
  by (auto simp: allocate_def split: option.splits)

text \<open>
  The byte count of a tensor that has a size in the model: it does not wrap. Beyond, it
  can: 8 bytes times \<open>(2 ^ 21) ^ 3\<close> entries is 0 bytes.
\<close>

lemma malloc_bytes_exact:
  assumes "sizeof_T < 2048" "Hdim < 2 ^ 53"
  shows "unat (malloc_bytes sizeof_T Hdim) = sizeof_T * Hdim"
proof -
  have "sizeof_T * Hdim \<le> 2048 * 2 ^ 53"
    using assms by (intro mult_mono) simp_all
  also have "\<dots> = (2::nat) ^ 64" by simp
  finally have le: "sizeof_T * Hdim \<le> 2 ^ 64" .
  have "sizeof_T * Hdim \<noteq> 2 ^ 64"
  proof
    assume e: "sizeof_T * Hdim = 2 ^ 64"
    have "sizeof_T * Hdim < 2048 * 2 ^ 53"
      using assms e by (intro mult_strict_mono) auto
    with e show False by simp
  qed
  with le have lt: "sizeof_T * Hdim < 2 ^ 64" by simp
  have "malloc_bytes sizeof_T Hdim = word_of_nat (sizeof_T * Hdim)"
    by (simp only: malloc_bytes_def of_nat_mult)
  then show ?thesis using lt by (simp only: unat_of_nat) (simp add: take_bit_nat_eq_self)
qed

lemma malloc_bytes_wraps: "malloc_bytes 8 ((2 ^ 21) ^ 3) = 0"
  by (simp add: malloc_bytes_def)

text \<open>
  The calls without a result: a power that \<open>pow\<close> rounds or whose byte count wraps, a
  \<open>malloc\<close> that returns the null pointer, a resolution whose successor is not an \<open>int\<close>.
\<close>

lemma tensor_size_beyond:
  "tensor_size 3 34 = None" "tensor_size (2 ^ 21) 3 = None"
  by (simp_all add: tensor_size_def)

lemma hermite_null_pointer:
  "hermite_multidimensional_cpp R y resolution None = None"
  by (simp add: hermite_multidimensional_cpp_def allocate_def Let_def split: Option.bind_split)

lemma interferometer_int_max:
  "interferometer_cpp sq R 2147483647 mem = None"
  by (simp add: interferometer_cpp_def intsqrt_table_def INT_MAX_def Let_def split: Option.bind_split)

text \<open>
  A tensor of fewer than \<open>2 ^ 53\<close> entries with two axes or more has a resolution below
  \<open>INT_MAX\<close>.
\<close>

lemma small_tensor_resolution:
  assumes "1 \<le> r" "r \<le> INT_MAX" "r ^ d < 2 ^ 53" "1 \<le> d"
  shows "r < INT_MAX \<or> d = 1"
proof (rule ccontr)
  assume "\<not> (r < INT_MAX \<or> d = 1)"
  then have r: "r = INT_MAX" and d: "2 \<le> d" using assms(2,4) by auto
  have "r ^ 2 \<le> r ^ d" using assms(1) d by (intro power_increasing) simp_all
  moreover have "(2::int) ^ 53 \<le> r ^ 2" unfolding r INT_MAX_def by simp
  ultimately show False using assms(3) by simp
qed

text \<open>
  Claim C2. In a call of \<open>hermite_multidimensional_cpp\<close> that has its tensor (\<open>ndim\<close> the
  integer square root of the size of \<open>R\<close>, \<open>resolution\<close> a positive \<open>int\<close>, fewer than
  \<open>2 ^ 53\<close> entries, a block returned by \<open>malloc\<close>) and \<open>y\<close> of at least \<open>ndim\<close> entries,
  every iteration \<open>n + 1\<close> of the loop (all are accepted: this fill has no selection
  rule) turns the tensor \<open>H\<close> into \<open>H\<close> with the entry at the offset of \<open>nextPos\<close> set to
  \<open>H[offset jumpFrom] * y[k] - \<Sum>\<^sub>i (jumpFrom[i] - 1) * R[dim*k+i] * H[offset (jumpFrom - e\<^sub>i)]\<close>,
  the sum over the axes \<open>i\<close> with \<open>jumpFrom[i] > 1\<close>, where \<open>jumpFrom = nextPos - e\<^sub>k\<close>;
  and the call returns the tensor of the last iteration.
\<close>

theorem hermite_recurrence:
  fixes R y :: "'a::comm_ring_1 list"
  assumes "ndim = isqrt (length R)" "1 \<le> ndim" "1 \<le> resolution" "resolution \<le> INT_MAX"
    and "resolution ^ ndim < 2 ^ 53" "ndim \<le> length y"
    and "allocate mem (nat (resolution ^ ndim)) = Some block" "H0 = block[0 := 1]"
    and "int n < resolution ^ ndim - 1"
  shows "\<exists>s H k s' sfin Hfin.
      fill_loop (hermite_step R y resolution ndim) n (initial_iterator ndim, H0) = Some (s, H) \<and>
      update_iterator s resolution ndim = Some (k, s') \<and>
      jumpFrom s' = (nextPos s')[k := nextPos s' ! k - 1] \<and>
      offset resolution (nextPos s') < length H \<and>
      fill_loop (hermite_step R y resolution ndim) (Suc n) (initial_iterator ndim, H0) =
        Some (s', H[offset resolution (nextPos s') :=
          H ! offset resolution (jumpFrom s') * y ! k -
          (\<Sum>ii\<leftarrow>[0..<ndim]. if 1 < jumpFrom s' ! ii
              then of_int (jumpFrom s' ! ii - 1) * R ! (ndim * k + ii)
                     * H ! offset resolution ((jumpFrom s')[ii := jumpFrom s' ! ii - 1])
              else 0)]) \<and>
      fill_loop (hermite_step R y resolution ndim) (nat (resolution ^ ndim) - 1)
        (initial_iterator ndim, H0) = Some (sfin, Hfin) \<and>
      hermite_multidimensional_cpp R y resolution mem = Some Hfin"
proof -
  let ?step = "hermite_step R y resolution ndim"
  have size: "resolution ^ ndim \<le> 2 ^ 64"
  proof -
    have "(2::int) ^ 53 \<le> 2 ^ 64" by simp
    with assms(5) show ?thesis by linarith
  qed
  note rng = assms(4) small_tensor_resolution [OF assms(3,4,5,2)]
  have pos: "0 < resolution ^ ndim" using assms(3) by simp
  have lenb: "length block = nat (resolution ^ ndim)" by (rule length_allocate [OF assms(7)])
  have len: "length H0 = nat (resolution ^ ndim)" using lenb assms(8) by simp
  have R: "ndim * ndim \<le> length R" unfolding assms(1) by (rule isqrt_square_le)
  note st = hermite_fill_state [OF assms(3,2) size len assms(6) R rng]
  have n: "int n < resolution ^ ndim" using assms(9) by simp
  from st [OF n] obtain s H
    where H: "fill_loop ?step n (initial_iterator ndim, H0) = Some (s, H)"
      "iterate_update n resolution ndim = Some s" "length H = length H0"
    by blast
  from iterate_update_next [OF assms(3,9) rng] H(2) obtain k s'
    where *: "update_iterator s resolution ndim = Some (k, s')"
      "k < ndim" "in_box resolution ndim (nextPos s')"
      "jumpFrom s' = (nextPos s')[k := nextPos s' ! k - 1]" "2 \<le> nextPos s' ! k"
    by auto
  have lenH: "length H = nat (resolution ^ ndim)" using H(3) len by simp
  note step = hermite_step_result [OF *(1,2,3,4,5) assms(2) size lenH assms(6) R]
  have nx: "offset resolution (nextPos s') < length H"
    using vec2index_offset(3) [OF *(3) assms(2) size] lenH by simp
  have "int (nat (resolution ^ ndim) - 1) < resolution ^ ndim" using pos by simp
  from st [OF this] obtain sfin Hfin
    where fin: "fill_loop ?step (nat (resolution ^ ndim) - 1) (initial_iterator ndim, H0) = Some (sfin, Hfin)"
    by blast
  have "0 < length block" using lenb pos by simp
  then have "wr block 0 1 = Some H0" unfolding assms(8) by simp
  then have "hermite_multidimensional_cpp R y resolution mem = Some Hfin"
    using fin tensor_size_Some [OF assms(3,5)] assms(7)
    unfolding hermite_multidimensional_cpp_def assms(1) Let_def by simp
  moreover have "fill_loop ?step (Suc n) (initial_iterator ndim, H0) = ?step (s, H)"
    using H(1) by simp
  ultimately show ?thesis
    using H(1) *(1,4) nx step fin by (intro exI [of _ s] exI [of _ H] exI [of _ k] exI [of _ s']
        exI [of _ sfin] exI [of _ Hfin]) simp
qed

text \<open>
  The third iteration of the fill for \<open>resolution = 2\<close> and \<open>R = [0, 1, 1, 0]\<close>, in a block
  that held four sevens.
\<close>

theorem hermite_recurrence_witness:
  "\<exists>s H k s' sfin Hfin.
      fill_loop (hermite_step [0, 1, 1, 0] [0, 0 :: int] 2 2) 2 (initial_iterator 2, [7, 7, 7, 7 :: int][0 := 1]) = Some (s, H) \<and>
      update_iterator s 2 2 = Some (k, s') \<and>
      jumpFrom s' = (nextPos s')[k := nextPos s' ! k - 1] \<and>
      offset 2 (nextPos s') < length H \<and>
      fill_loop (hermite_step [0, 1, 1, 0] [0, 0 :: int] 2 2) (Suc 2) (initial_iterator 2, [7, 7, 7, 7 :: int][0 := 1]) =
        Some (s', H[offset 2 (nextPos s') :=
          H ! offset 2 (jumpFrom s') * [0, 0] ! k -
          (\<Sum>ii\<leftarrow>[0..<2]. if 1 < jumpFrom s' ! ii
              then of_int (jumpFrom s' ! ii - 1) * [0, 1, 1, 0] ! (2 * k + ii)
                     * H ! offset 2 ((jumpFrom s')[ii := jumpFrom s' ! ii - 1])
              else 0)]) \<and>
      fill_loop (hermite_step [0, 1, 1, 0] [0, 0 :: int] 2 2) (nat (2 ^ 2) - 1)
        (initial_iterator 2, [7, 7, 7, 7 :: int][0 := 1]) = Some (sfin, Hfin) \<and>
      hermite_multidimensional_cpp [0, 1, 1, 0] [0, 0] 2 (Some (\<lambda>i. 7 :: int)) = Some Hfin"
proof -
  have h1: "2 = isqrt (length [0, 1, 1, 0 :: int])" by (rule isqrt_length_4 [symmetric])
  have h: "(1::nat) \<le> 2" "(1::int) \<le> 2" "(2::int) \<le> INT_MAX" "(2::int) ^ 2 < 2 ^ 53"
    "2 \<le> length [0, 0 :: int]" "int 2 < 2 ^ 2 - 1"
    by (simp_all add: INT_MAX_def)
  have al: "allocate (Some (\<lambda>i. 7 :: int)) (nat (2 ^ 2)) = Some [7, 7, 7, 7]"
    using allocate_4 [of "\<lambda>i. 7 :: int"] by simp
  from hermite_recurrence [OF h1 h(1,2,3,4,5) al refl h(6)] show ?thesis .
qed

section \<open>The fills without a source vector\<close>

lemma renorm_coeff_Some:
  fixes R :: "'a::field list"
  assumes "in_box r d jf" "in_box r d np" "ii < d" "k < d" "d * d \<le> length R"
    and "intsqrt_table sq r = Some t"
  shows "renorm_coeff t R d k np jf ii
       = Some (sq (jf ! ii - 1) / sq (np ! k - 1) * R ! (k * d + ii))"
proof -
  have "1 \<le> jf ! ii" "jf ! ii \<le> r" "1 \<le> np ! k" "np ! k \<le> r"
    and len: "length jf = d" "length np = d"
    using assms(1-4) by (simp_all add: in_box_def)
  then have "rd_int t (jf ! ii - 1) = Some (sq (jf ! ii - 1))"
    "rd_int t (np ! k - 1) = Some (sq (np ! k - 1))"
    by (simp_all add: rd_intsqrt [OF assms(6)])
  moreover have "k * d + ii < length R"
    using index_in_matrix [OF assms(4,3)] assms(5) by simp
  ultimately show ?thesis using len assms(3,4) by (simp add: renorm_coeff_def)
qed

lemma renorm_corrections:
  fixes H :: "'a::field list"
  assumes k: "k < d" and box: "in_box r d np"
    and jf: "jf = np[k := np ! k - 1]" and two: "2 \<le> np ! k"
    and d: "1 \<le> d" and size: "r ^ d \<le> 2 ^ 64" and len: "length H = nat (r ^ d)"
    and R: "d * d \<le> length R" and axes: "\<forall>ii\<in>set axes. ii < d"
    and tbl: "intsqrt_table sq r = Some t"
  shows "correction_loop (renorm_coeff t R d k np jf) r d jf (offset r np) axes H =
     Some (H[offset r np := H ! offset r np -
        (\<Sum>ii\<leftarrow>axes. if 1 < jf ! ii
            then sq (jf ! ii - 1) / sq (np ! k - 1) * R ! (k * d + ii)
                   * H ! offset r (jf[ii := jf ! ii - 1])
            else 0)])"
proof -
  let ?nx = "offset r np"
  let ?coeff = "renorm_coeff t R d k np jf"
  have lennp: "length np = d" using box by (simp add: in_box_def)
  have boxj: "in_box r d jf"
    using box k two unfolding jf by (intro in_box_decrement) simp_all
  have nx: "?nx < nat (r ^ d)" by (rule vec2index_offset(3) [OF box d size])
  let ?f = "\<lambda>acc ii. if 1 < jf ! ii
                      then acc - the (?coeff ii) * H ! offset r (jf[ii := jf ! ii - 1]) else acc"
  have ax: "\<forall>ii\<in>set axes. ii < d \<and>
           (1 < jf ! ii \<longrightarrow> ?coeff ii \<noteq> None \<and> offset r (jf[ii := jf ! ii - 1]) \<noteq> ?nx)"
  proof (intro ballI conjI impI)
    fix ii assume "ii \<in> set axes"
    then show ii: "ii < d" using axes by simp
    show "?coeff ii \<noteq> None" using renorm_coeff_Some [OF boxj box ii k R tbl] by simp
    assume gt: "1 < jf ! ii"
    have "in_box r d (jf[ii := jf ! ii - 1])" using boxj ii gt by (rule in_box_decrement)
    moreover have "jf[ii := jf ! ii - 1] \<noteq> np"
      using jf k ii lennp by (intro predecessor_differs [of _ _ k]) simp_all
    ultimately show "offset r (jf[ii := jf ! ii - 1]) \<noteq> ?nx"
      using offset_inj [OF _ box d size] by blast
  qed
  have "correction_loop ?coeff r d jf ?nx axes H = Some (H[?nx := foldl ?f (H ! ?nx) axes])"
    using nx len by (intro correction_loop_result [OF boxj d size len _ ax]) simp_all
  also have "foldl ?f (H ! ?nx) axes
      = H ! ?nx - (\<Sum>ii\<leftarrow>axes. if 1 < jf ! ii
            then the (?coeff ii) * H ! offset r (jf[ii := jf ! ii - 1]) else 0)"
    by (rule foldl_minus_sum)
  also have "(\<Sum>ii\<leftarrow>axes. if 1 < jf ! ii
            then the (?coeff ii) * H ! offset r (jf[ii := jf ! ii - 1]) else 0)
      = (\<Sum>ii\<leftarrow>axes. if 1 < jf ! ii
            then sq (jf ! ii - 1) / sq (np ! k - 1) * R ! (k * d + ii)
                   * H ! offset r (jf[ii := jf ! ii - 1])
            else 0)"
    using axes
    by (intro arg_cong [where f = sum_list] map_cong)
       (simp_all add: renorm_coeff_Some [OF boxj box _ k R tbl])
  finally show ?thesis .
qed

lemma renorm_corrections_sum:
  fixes H :: "'a::field list"
  assumes "k < d" "in_box r d np" "jf = np[k := np ! k - 1]" "2 \<le> np ! k"
    and "1 \<le> d" "r ^ d \<le> 2 ^ 64" "length H = nat (r ^ d)"
    and "d * d \<le> length R" "\<forall>ii\<in>set axes. ii < d" "intsqrt_table sq r = Some t"
  shows "correction_loop (renorm_coeff t R d k np jf) r d jf (offset r np) axes H =
     Some (H[offset r np := H ! offset r np - correction_sum sq R r d k np jf axes H])"
  unfolding correction_sum_def by (rule renorm_corrections [OF assms])

lemma vec2index_both:
  assumes "k < d" "in_box r d np" "jf = np[k := np ! k - 1]" "2 \<le> np ! k"
    and "1 \<le> d" "r ^ d \<le> 2 ^ 64"
  shows "\<exists>wn wf. vec2index np r = Some wn \<and> unat wn = offset r np \<and> vec2index jf r = Some wf"
proof -
  have boxj: "in_box r d jf"
    using assms(1,2,4) unfolding assms(3) by (intro in_box_decrement) simp_all
  from vec2index_offset(1) [OF assms(2,5,6)] vec2index_offset(1) [OF boxj assms(5,6)]
  show ?thesis by blast
qed

lemma interferometer_step_result:
  fixes H :: "'a::field list"
  assumes up: "update_iterator s r d = Some (k, s')" and k: "k < d"
    and box: "in_box r d (nextPos s')"
    and jf: "jumpFrom s' = (nextPos s')[k := nextPos s' ! k - 1]" and two: "2 \<le> nextPos s' ! k"
    and d: "1 \<le> d" and size: "r ^ d \<le> 2 ^ 64" and len: "length H = nat (r ^ d)"
    and R: "d * d \<le> length R" and tbl: "intsqrt_table sq r = Some t"
  shows "interferometer_step t R r d (s, H) =
     Some (s', if (\<Sum>ii\<leftarrow>[0..<d div 2]. nextPos s' ! ii) = (\<Sum>ii\<leftarrow>[d div 2..<d]. nextPos s' ! ii)
               then H[offset r (nextPos s') := H ! offset r (nextPos s') -
                      correction_sum sq R r d k (nextPos s') (jumpFrom s')
                        [fst (interferometer_limits k (d div 2) d)..<snd (interferometer_limits k (d div 2) d)] H]
               else H)"
proof -
  from vec2index_both [OF k box jf two d size] obtain wn wf
    where w: "vec2index (nextPos s') r = Some wn" "unat wn = offset r (nextPos s')"
      "vec2index (jumpFrom s') r = Some wf" by blast
  have ax: "\<forall>ii\<in>set [fst (interferometer_limits k (d div 2) d)..<snd (interferometer_limits k (d div 2) d)]. ii < d"
    by (auto simp: interferometer_limits_def)
  note cl = renorm_corrections_sum [OF k box jf two d size len R ax tbl]
  show ?thesis
    using up w cl by (simp add: interferometer_step_def Let_def case_prod_beta)
qed

lemma squeezing_step_result:
  fixes H :: "'a::field list"
  assumes up: "update_iterator s r 2 = Some (k, s')" and k: "k < 2"
    and box: "in_box r 2 (nextPos s')"
    and jf: "jumpFrom s' = (nextPos s')[k := nextPos s' ! k - 1]" and two: "2 \<le> nextPos s' ! k"
    and size: "r ^ 2 \<le> 2 ^ 64" and len: "length H = nat (r ^ 2)"
    and R: "2 * 2 \<le> length R" and tbl: "intsqrt_table sq r = Some t"
  shows "squeezing_step t R r 2 (s, H) =
     Some (s', if c_rem (nextPos s' ! 0) 2 = c_rem (nextPos s' ! 1) 2
               then H[offset r (nextPos s') := H ! offset r (nextPos s') -
                      correction_sum sq R r 2 k (nextPos s') (jumpFrom s') [0..<2] H]
               else H)"
proof -
  have d: "(1::nat) \<le> 2" by simp
  from vec2index_both [OF k box jf two d size] obtain wn wf
    where w: "vec2index (nextPos s') r = Some wn" "unat wn = offset r (nextPos s')"
      "vec2index (jumpFrom s') r = Some wf" by blast
  have ax: "\<forall>ii\<in>set [0..<2]. ii < (2::nat)" by simp
  note cl = renorm_corrections_sum [OF k box jf two d size len R ax tbl]
  have "length (nextPos s') = 2" using box by (simp add: in_box_def)
  then show ?thesis
    using up w cl by (simp add: squeezing_step_def)
qed

lemma two_mode_squeezing_step_result:
  fixes H :: "'a::field list"
  assumes up: "update_iterator s r 4 = Some (k, s')" and k: "k < 4"
    and box: "in_box r 4 (nextPos s')"
    and jf: "jumpFrom s' = (nextPos s')[k := nextPos s' ! k - 1]" and two: "2 \<le> nextPos s' ! k"
    and size: "r ^ 4 \<le> 2 ^ 64" and len: "length H = nat (r ^ 4)"
    and R: "4 * 4 \<le> length R" and tbl: "intsqrt_table sq r = Some t"
  shows "two_mode_squeezing_step t R r 4 (s, H) =
     Some (s', if nextPos s' ! 0 - nextPos s' ! 1 = nextPos s' ! 2 - nextPos s' ! 3
               then H[offset r (nextPos s') := H ! offset r (nextPos s') -
                      correction_sum sq R r 4 k (nextPos s') (jumpFrom s') [0..<4] H]
               else H)"
proof -
  have d: "(1::nat) \<le> 4" by simp
  from vec2index_both [OF k box jf two d size] obtain wn wf
    where w: "vec2index (nextPos s') r = Some wn" "unat wn = offset r (nextPos s')"
      "vec2index (jumpFrom s') r = Some wf" by blast
  have ax: "\<forall>ii\<in>set [0..<4]. ii < (4::nat)" by simp
  note cl = renorm_corrections_sum [OF k box jf two d size len R ax tbl]
  have "length (nextPos s') = 4" using box by (simp add: in_box_def)
  then show ?thesis
    using up w cl by (simp add: two_mode_squeezing_step_def)
qed

lemma accepted_axis_in_bra_half:
  assumes k: "k < d" and box: "in_box r d np" and ones: "\<forall>j<k. np ! j = 1" and two: "2 \<le> np ! k"
    and even: "even d"
    and acc: "(\<Sum>ii\<leftarrow>[0..<d div 2]. np ! ii) = (\<Sum>ii\<leftarrow>[d div 2..<d]. np ! ii)"
  shows "k < d div 2"
proof (rule ccontr)
  assume "\<not> k < d div 2"
  then have ge: "d div 2 \<le> k" by simp
  let ?f = "\<lambda>ii. np ! ii"
  have half: "d - d div 2 = d div 2" using even by (auto elim: evenE)
  have "(\<Sum>ii\<leftarrow>[0..<d div 2]. np ! ii) = sum ?f {0..<d div 2}"
    by (simp add: interv_sum_list_conv_sum_set_nat)
  also have "\<dots> = sum (\<lambda>ii. 1) {0..<d div 2}"
    using ones ge by (intro sum.cong) simp_all
  finally have bra: "(\<Sum>ii\<leftarrow>[0..<d div 2]. np ! ii) = int (d div 2)" by simp
  have ge1: "1 \<le> np ! ii" if "ii < d" for ii
    using box that by (simp add: in_box_def)
  have kin: "k \<in> {d div 2..<d}" using k ge by simp
  have "(\<Sum>ii\<leftarrow>[d div 2..<d]. np ! ii) = sum ?f {d div 2..<d}"
    by (simp add: interv_sum_list_conv_sum_set_nat)
  also have "\<dots> = np ! k + sum ?f ({d div 2..<d} - {k})"
    using kin by (intro sum.remove) simp_all
  finally have ket: "(\<Sum>ii\<leftarrow>[d div 2..<d]. np ! ii) = np ! k + sum ?f ({d div 2..<d} - {k})" .
  have "of_nat (card ({d div 2..<d} - {k})) * 1 \<le> sum ?f ({d div 2..<d} - {k})"
    by (intro sum_bounded_below) (simp add: ge1)
  moreover have "card ({d div 2..<d} - {k}) = d div 2 - 1"
    using kin half by (simp add: card_Diff_singleton)
  moreover have "0 < d div 2" using k ge even by (auto elim: evenE)
  ultimately have "int (d div 2) - 1 \<le> sum ?f ({d div 2..<d} - {k})"
    by (simp add: of_nat_diff)
  with ket two have "int (d div 2) < (\<Sum>ii\<leftarrow>[d div 2..<d]. np ! ii)" by simp
  with bra acc show False by simp
qed

lemma iterate_update_2_2_2:
  "iterate_update 2 2 2 = Some \<lparr>nextPos = [1, 2], jumpFrom = [1, 1], jump = Suc 0\<rparr>"
  by code_simp

lemma upto_0_2: "[0..2] = [0, 1, 2]"
  by code_simp

lemma interferometer_fill_2_2:
  fixes a b c d :: "'a::field"
  assumes "sq 1 = 1"
  shows "interferometer_cpp sq [a, b, c, d] 2 (Some mem) = Some [1, mem 1, mem 2, mem 3 - b]"
proof -
  let ?R = "[a, b, c, d]" and ?t = "[sq 0, 1, sq 2]"
  have t: "intsqrt_table sq 2 = Some ?t"
    using assms by (simp add: intsqrt_table_def upto_0_2 INT_MAX_def)
  have one: "[Suc 0..<2] = [Suc 0]" by code_simp
  have s1: "interferometer_step ?t ?R 2 2 (\<lparr>nextPos = [1, 1], jumpFrom = [1, 1], jump = 0\<rparr>, H)
      = Some (\<lparr>nextPos = [2, 1], jumpFrom = [1, 1], jump = 0\<rparr>, H)" for H
    by (simp add: interferometer_step_def update_2_2 upt_2 one Let_def)
  have s2: "interferometer_step ?t ?R 2 2 (\<lparr>nextPos = [2, 1], jumpFrom = [1, 1], jump = 0\<rparr>, H)
      = Some (\<lparr>nextPos = [1, 2], jumpFrom = [1, 1], jump = Suc 0\<rparr>, H)" for H
    by (simp add: interferometer_step_def update_2_2 upt_2 one Let_def)
  have s3: "interferometer_step ?t ?R 2 2 (\<lparr>nextPos = [1, 2], jumpFrom = [1, 1], jump = Suc 0\<rparr>, [1, x, y, z])
      = Some (\<lparr>nextPos = [2, 2], jumpFrom = [1, 2], jump = 0\<rparr>, [1, x, y, z - b])" for x y z
    by (simp add: interferometer_step_def update_2_2 vec2index_2_2 upt_2 Let_def
        interferometer_limits_def one replicate_2 rd_def wr_def rd_int_def renorm_coeff_def)
  have init: "initial_iterator 2 = \<lparr>nextPos = [1, 1], jumpFrom = [1, 1], jump = 0\<rparr>"
    by (simp add: initial_iterator_def replicate_2)
  have "fill_loop (interferometer_step ?t ?R 2 2) 3 (initial_iterator 2, [1, x, y, z])
      = Some (\<lparr>nextPos = [2, 2], jumpFrom = [1, 2], jump = 0\<rparr>, [1, x, y, z - b])" for x y z
    unfolding fill_loop_3 init by (simp add: s1 s2 s3)
  then show ?thesis
    unfolding interferometer_cpp_def isqrt_length_4 Let_def
    by (simp add: tensor_size_2_2 allocate_4 wr_def t)
qed

lemma isqrt_length_16: "isqrt (length (replicate 16 r)) = 4"
proof -
  have "isqrt 16 = 4" by code_simp
  then show ?thesis by simp
qed

lemma two_mode_squeezing_resolution_1:
  "two_mode_squeezing_cpp sq (replicate 16 r) 1 (Some mem) = Some ([- r], [0])"
  unfolding two_mode_squeezing_cpp_def isqrt_length_16 Let_def
  by (simp add: tensor_size_def allocate_def rd_def wr_def intsqrt_table_def INT_MAX_def)

text \<open>
  The limits that the code selects at the first axis of the ket half: the test is
  \<open>k > num_modes\<close>, so \<open>k = num_modes\<close> gets the ket half, its own.
\<close>

lemma interferometer_limits_first_ket_axis:
  "interferometer_limits (d div 2) (d div 2) d = (d div 2, d)"
  by (simp add: interferometer_limits_def)

text \<open>
  Claim C6. In the interferometer fill with an even number of axes, on every accepted
  iteration (the sum of \<open>nextPos\<close> over the first \<open>dim/2\<close> axes, the bra half, equals the
  sum over the others, the ket half) the changed axis \<open>k\<close> is in the bra half, the limits
  that the code selects are those of the ket half, and the iteration replaces the entry
  at the offset of \<open>nextPos\<close> by the value it holds less the correction sum over the axes
  of the ket half, \<open>dim/2 .. dim - 1\<close>. The other case of the claim, \<open>k\<close> in the ket half,
  has no instance: when the changed axis is in the ket half, every bra coordinate has
  just been reset to 1 and the ket sum is larger, so the iteration is rejected. The
  theorem is about iteration \<open>n + 1\<close> of a fill whose table of square roots was built, for
  every tensor \<open>H\<close> of \<open>resolution ^ ndim\<close> entries.
\<close>

theorem interferometer_complementary_half:
  fixes R H :: "'a::field list"
  assumes "1 \<le> resolution" "even ndim" "resolution ^ ndim \<le> 2 ^ 64"
    and "intsqrt_table sq resolution = Some intsqrt"
    and "ndim * ndim \<le> length R" "length H = nat (resolution ^ ndim)"
    and "int n < resolution ^ ndim - 1"
  shows "\<exists>s k s'. iterate_update n resolution ndim = Some s \<and>
      update_iterator s resolution ndim = Some (k, s') \<and>
      ((\<Sum>ii\<leftarrow>[0..<ndim div 2]. nextPos s' ! ii) = (\<Sum>ii\<leftarrow>[ndim div 2..<ndim]. nextPos s' ! ii) \<longrightarrow>
         k < ndim div 2 \<and>
         interferometer_limits k (ndim div 2) ndim = (ndim div 2, ndim) \<and>
         interferometer_step intsqrt R resolution ndim (s, H) =
           Some (s', H[offset resolution (nextPos s') := H ! offset resolution (nextPos s') -
                    correction_sum sq R resolution ndim k (nextPos s') (jumpFrom s')
                      [ndim div 2..<ndim] H]))"
proof -
  have d: "1 \<le> ndim"
  proof (rule ccontr)
    assume "\<not> 1 \<le> ndim"
    then have "ndim = 0" by simp
    with assms(7) show False by simp
  qed
  have rng: "resolution \<le> INT_MAX" "resolution < INT_MAX \<or> ndim = 1"
    using intsqrt_table_range [OF assms(4)] by simp_all
  from iterate_update_next [OF assms(1,7) rng] obtain s k s'
    where *: "iterate_update n resolution ndim = Some s"
      "update_iterator s resolution ndim = Some (k, s')" "k < ndim"
      "in_box resolution ndim (nextPos s')"
      "jumpFrom s' = (nextPos s')[k := nextPos s' ! k - 1]"
      "\<forall>j<k. nextPos s' ! j = 1" "2 \<le> nextPos s' ! k"
    by blast
  note i = interferometer_step_result [OF *(2,3,4,5,7) d assms(3,6,5,4)]
  have "k < ndim div 2 \<and>
         interferometer_limits k (ndim div 2) ndim = (ndim div 2, ndim) \<and>
         interferometer_step intsqrt R resolution ndim (s, H) =
           Some (s', H[offset resolution (nextPos s') := H ! offset resolution (nextPos s') -
                    correction_sum sq R resolution ndim k (nextPos s') (jumpFrom s')
                      [ndim div 2..<ndim] H])"
    if acc: "(\<Sum>ii\<leftarrow>[0..<ndim div 2]. nextPos s' ! ii) = (\<Sum>ii\<leftarrow>[ndim div 2..<ndim]. nextPos s' ! ii)"
  proof -
    have k: "k < ndim div 2"
      by (rule accepted_axis_in_bra_half [OF *(3,4,6,7) assms(2) acc])
    then have lim: "interferometer_limits k (ndim div 2) ndim = (ndim div 2, ndim)"
      by (simp add: interferometer_limits_def)
    show ?thesis using k lim i acc by simp
  qed
  then show ?thesis using *(1,2) by blast
qed

text \<open>
  The third iteration for \<open>resolution = 2\<close> and two axes, which is accepted: \<open>nextPos\<close>
  becomes \<open>(2, 2)\<close>, the changed axis is 0, and the one correction, over axis 1, is
  \<open>R[1] * H[0] = 1\<close>, taken from the entry 0 at offset 3.
\<close>

theorem interferometer_complementary_half_witness:
  "\<exists>s k s'. iterate_update 2 2 2 = Some s \<and> update_iterator s 2 2 = Some (k, s') \<and>
      (\<Sum>ii\<leftarrow>[0..<2 div 2]. nextPos s' ! ii) = (\<Sum>ii\<leftarrow>[2 div 2..<2]. nextPos s' ! ii) \<and>
      k < 2 div 2 \<and> interferometer_limits k (2 div 2) 2 = (2 div 2, 2) \<and>
      interferometer_step [0, 1, sqrt 2] [0, 1, 1, 0] 2 2 (s, [1, 5, 0, 0]) =
        Some (s', [1, 5, 0, 0][offset 2 (nextPos s') := [1, 5, 0, 0] ! offset 2 (nextPos s') -
                 correction_sum (sqrt \<circ> real_of_int) [0, 1, 1, 0] 2 2 k (nextPos s') (jumpFrom s')
                   [2 div 2..<2] [1, 5, 0, 0]])"
proof -
  have t: "intsqrt_table (sqrt \<circ> real_of_int) 2 = Some [0, 1, sqrt 2]"
    by (simp add: intsqrt_table_def upto_0_2 INT_MAX_def)
  have h: "(1::int) \<le> 2" "even (2::nat)" "(2::int) ^ 2 \<le> 2 ^ 64"
    "2 * 2 \<le> length [0, 1, 1, 0 :: real]" "length [1, 5, 0, 0 :: real] = nat (2 ^ 2)"
    "int 2 < 2 ^ 2 - 1" by simp_all
  from interferometer_complementary_half [OF h(1,2,3) t h(4,5,6)] obtain s k s'
    where *: "iterate_update 2 2 2 = Some s" "update_iterator s 2 2 = Some (k, s')"
      "(\<Sum>ii\<leftarrow>[0..<2 div 2]. nextPos s' ! ii) = (\<Sum>ii\<leftarrow>[2 div 2..<2]. nextPos s' ! ii) \<longrightarrow>
         k < 2 div 2 \<and> interferometer_limits k (2 div 2) 2 = (2 div 2, 2) \<and>
         interferometer_step [0, 1, sqrt 2] [0, 1, 1, 0] 2 2 (s, [1, 5, 0, 0]) =
           Some (s', [1, 5, 0, 0][offset 2 (nextPos s') := [1, 5, 0, 0] ! offset 2 (nextPos s') -
                    correction_sum (sqrt \<circ> real_of_int) [0, 1, 1, 0] 2 2 k (nextPos s') (jumpFrom s')
                      [2 div 2..<2] [1, 5, 0, 0]])"
    by blast
  have s: "s = \<lparr>nextPos = [1, 2], jumpFrom = [1, 1], jump = Suc 0\<rparr>"
    using *(1) iterate_update_2_2_2 by simp
  have s': "s' = \<lparr>nextPos = [2, 2], jumpFrom = [1, 2], jump = 0\<rparr>"
    using *(2) update_2_2(3) unfolding s by simp
  have one: "[Suc 0..<2] = [Suc 0]" by code_simp
  have acc: "(\<Sum>ii\<leftarrow>[0..<2 div 2]. nextPos s' ! ii) = (\<Sum>ii\<leftarrow>[2 div 2..<2]. nextPos s' ! ii)"
    unfolding s' by (simp add: one)
  from *(3) [rule_format, OF acc] *(1,2) acc show ?thesis by blast
qed

text \<open>
  Claim C7, as the code has it. In the interferometer, the single-mode squeezer and the
  two-mode squeezer, an iteration assigns no base term, and the entry at the offset of
  \<open>jumpFrom\<close> is not read: an accepted iteration replaces the entry at the offset of
  \<open>nextPos\<close> by the value it holds less the correction sum over the axes of the fill's
  range, and a rejected iteration leaves the tensor as it is. This holds at every
  iteration \<open>n + 1\<close> of a fill whose table of square roots was built, for every tensor
  \<open>H\<close> of \<open>resolution ^ ndim\<close> entries.
\<close>

theorem no_source_steps:
  fixes R H :: "'a::field list"
  assumes "1 \<le> resolution" "1 \<le> ndim" "resolution ^ ndim \<le> 2 ^ 64"
    and "ndim * ndim \<le> length R" "length H = nat (resolution ^ ndim)"
    and "int n < resolution ^ ndim - 1"
    and "intsqrt_table sq resolution = Some intsqrt"
  shows "\<exists>s k s'. iterate_update n resolution ndim = Some s \<and>
      update_iterator s resolution ndim = Some (k, s') \<and>
      (even ndim \<longrightarrow>
         interferometer_step intsqrt R resolution ndim (s, H) =
           Some (s', if (\<Sum>ii\<leftarrow>[0..<ndim div 2]. nextPos s' ! ii) = (\<Sum>ii\<leftarrow>[ndim div 2..<ndim]. nextPos s' ! ii)
               then H[offset resolution (nextPos s') := H ! offset resolution (nextPos s') -
                      correction_sum sq R resolution ndim k (nextPos s') (jumpFrom s')
                        [fst (interferometer_limits k (ndim div 2) ndim)..<snd (interferometer_limits k (ndim div 2) ndim)] H]
               else H)) \<and>
      (ndim = 2 \<longrightarrow>
         squeezing_step intsqrt R resolution ndim (s, H) =
           Some (s', if c_rem (nextPos s' ! 0) 2 = c_rem (nextPos s' ! 1) 2
               then H[offset resolution (nextPos s') := H ! offset resolution (nextPos s') -
                      correction_sum sq R resolution ndim k (nextPos s') (jumpFrom s') [0..<ndim] H]
               else H)) \<and>
      (ndim = 4 \<longrightarrow>
         two_mode_squeezing_step intsqrt R resolution ndim (s, H) =
           Some (s', if nextPos s' ! 0 - nextPos s' ! 1 = nextPos s' ! 2 - nextPos s' ! 3
               then H[offset resolution (nextPos s') := H ! offset resolution (nextPos s') -
                      correction_sum sq R resolution ndim k (nextPos s') (jumpFrom s') [0..<ndim] H]
               else H))"
proof -
  have rng: "resolution \<le> INT_MAX" "resolution < INT_MAX \<or> ndim = 1"
    using intsqrt_table_range [OF assms(7)] by simp_all
  from iterate_update_next [OF assms(1,6) rng] obtain s k s'
    where *: "iterate_update n resolution ndim = Some s"
      "update_iterator s resolution ndim = Some (k, s')" "k < ndim"
      "in_box resolution ndim (nextPos s')"
      "jumpFrom s' = (nextPos s')[k := nextPos s' ! k - 1]" "2 \<le> nextPos s' ! k"
    by blast
  note i = interferometer_step_result [OF *(2,3,4,5,6) assms(2,3,5,4,7)]
  have sq2: "ndim = 2 \<longrightarrow>
         squeezing_step intsqrt R resolution ndim (s, H) =
           Some (s', if c_rem (nextPos s' ! 0) 2 = c_rem (nextPos s' ! 1) 2
               then H[offset resolution (nextPos s') := H ! offset resolution (nextPos s') -
                      correction_sum sq R resolution ndim k (nextPos s') (jumpFrom s') [0..<ndim] H]
               else H)"
  proof
    assume d: "ndim = 2"
    show "squeezing_step intsqrt R resolution ndim (s, H) =
           Some (s', if c_rem (nextPos s' ! 0) 2 = c_rem (nextPos s' ! 1) 2
               then H[offset resolution (nextPos s') := H ! offset resolution (nextPos s') -
                      correction_sum sq R resolution ndim k (nextPos s') (jumpFrom s') [0..<ndim] H]
               else H)"
      using *(2,3,4,6) assms(3,4,5,7) unfolding d
      by (intro squeezing_step_result) (simp_all add: *(5))
  qed
  have tm: "ndim = 4 \<longrightarrow>
         two_mode_squeezing_step intsqrt R resolution ndim (s, H) =
           Some (s', if nextPos s' ! 0 - nextPos s' ! 1 = nextPos s' ! 2 - nextPos s' ! 3
               then H[offset resolution (nextPos s') := H ! offset resolution (nextPos s') -
                      correction_sum sq R resolution ndim k (nextPos s') (jumpFrom s') [0..<ndim] H]
               else H)"
  proof
    assume d: "ndim = 4"
    show "two_mode_squeezing_step intsqrt R resolution ndim (s, H) =
           Some (s', if nextPos s' ! 0 - nextPos s' ! 1 = nextPos s' ! 2 - nextPos s' ! 3
               then H[offset resolution (nextPos s') := H ! offset resolution (nextPos s') -
                      correction_sum sq R resolution ndim k (nextPos s') (jumpFrom s') [0..<ndim] H]
               else H)"
      using *(2,3,4,6) assms(3,4,5,7) unfolding d
      by (intro two_mode_squeezing_step_result) (simp_all add: *(5))
  qed
  show ?thesis
    using *(1,2) i sq2 tm by (intro exI [of _ s] exI [of _ k] exI [of _ s']) simp
qed

text \<open>
  The third iteration for \<open>resolution = 2\<close> and two axes, in the interferometer and in
  the single-mode squeezer, with the table \<open>[0, 1, sqrt 2]\<close>.
\<close>

theorem no_source_steps_witness:
  "\<exists>s k s'. iterate_update 2 2 2 = Some s \<and>
      update_iterator s 2 2 = Some (k, s') \<and>
      intsqrt_table (sqrt \<circ> real_of_int) 2 = Some [0, 1, sqrt 2] \<and>
      interferometer_step [0, 1, sqrt 2] [0, 1, 1, 0] 2 2 (s, [1, 5, 0, 0]) =
           Some (s', if (\<Sum>ii\<leftarrow>[0..<2 div 2]. nextPos s' ! ii) = (\<Sum>ii\<leftarrow>[2 div 2..<2]. nextPos s' ! ii)
               then [1, 5, 0, 0][offset 2 (nextPos s') := [1, 5, 0, 0] ! offset 2 (nextPos s') -
                      correction_sum (sqrt \<circ> real_of_int) [0, 1, 1, 0] 2 2 k (nextPos s') (jumpFrom s')
                        [fst (interferometer_limits k (2 div 2) 2)..<snd (interferometer_limits k (2 div 2) 2)] [1, 5, 0, 0]]
               else [1, 5, 0, 0]) \<and>
      squeezing_step [0, 1, sqrt 2] [0, 1, 1, 0] 2 2 (s, [1, 5, 0, 0]) =
           Some (s', if c_rem (nextPos s' ! 0) 2 = c_rem (nextPos s' ! 1) 2
               then [1, 5, 0, 0][offset 2 (nextPos s') := [1, 5, 0, 0] ! offset 2 (nextPos s') -
                      correction_sum (sqrt \<circ> real_of_int) [0, 1, 1, 0] 2 2 k (nextPos s') (jumpFrom s') [0..<2] [1, 5, 0, 0]]
               else [1, 5, 0, 0])"
proof -
  have t: "intsqrt_table (sqrt \<circ> real_of_int) 2 = Some [0, 1, sqrt 2]"
    by (simp add: intsqrt_table_def upto_0_2 INT_MAX_def)
  have h: "(1::int) \<le> 2" "(1::nat) \<le> 2" "(2::int) ^ 2 \<le> 2 ^ 64"
    "2 * 2 \<le> length [0, 1, 1, 0 :: real]" "length [1, 5, 0, 0 :: real] = nat (2 ^ 2)"
    "int 2 < 2 ^ 2 - 1" by simp_all
  from no_source_steps [OF h t] obtain s k s'
    where *: "iterate_update 2 2 2 = Some s" "update_iterator s 2 2 = Some (k, s')"
      "even (2::nat) \<longrightarrow>
         interferometer_step [0, 1, sqrt 2] [0, 1, 1, 0] 2 2 (s, [1, 5, 0, 0]) =
           Some (s', if (\<Sum>ii\<leftarrow>[0..<2 div 2]. nextPos s' ! ii) = (\<Sum>ii\<leftarrow>[2 div 2..<2]. nextPos s' ! ii)
               then [1, 5, 0, 0][offset 2 (nextPos s') := [1, 5, 0, 0] ! offset 2 (nextPos s') -
                      correction_sum (sqrt \<circ> real_of_int) [0, 1, 1, 0] 2 2 k (nextPos s') (jumpFrom s')
                        [fst (interferometer_limits k (2 div 2) 2)..<snd (interferometer_limits k (2 div 2) 2)] [1, 5, 0, 0]]
               else [1, 5, 0, 0])"
      "(2::nat) = 2 \<longrightarrow>
         squeezing_step [0, 1, sqrt 2] [0, 1, 1, 0] 2 2 (s, [1, 5, 0, 0]) =
           Some (s', if c_rem (nextPos s' ! 0) 2 = c_rem (nextPos s' ! 1) 2
               then [1, 5, 0, 0][offset 2 (nextPos s') := [1, 5, 0, 0] ! offset 2 (nextPos s') -
                      correction_sum (sqrt \<circ> real_of_int) [0, 1, 1, 0] 2 2 k (nextPos s') (jumpFrom s') [0..<2] [1, 5, 0, 0]]
               else [1, 5, 0, 0])"
    by blast
  have e: "even (2::nat)" "(2::nat) = 2" by simp_all
  from *(1,2) t *(3) [rule_format, OF e(1)] *(4) [rule_format, OF e(2)] show ?thesis by blast
qed

text \<open>
  The claim as the specification states it, a base term \<open>H[nextCoord] = H[fromCoord] * 1\<close>,
  fails. With \<open>R = [0, 1, 1, 0]\<close>, \<open>resolution = 2\<close> and a block that holds
  \<open>[0, 5, 0, 0]\<close>, the accepted iteration at \<open>nextPos = (2, 2)\<close> (offset 3) has
  \<open>jumpFrom = (1, 2)\<close> (offset 1, where the tensor holds 5) and one correction,
  \<open>R[1] * H[0] = 1\<close>. A base term would give \<open>5 * 1 - 1 = 4\<close>; the code gives
  \<open>0 - 1 = -1\<close>. The second conjunct compares the entry written with
  \<open>H[fromCoord] * 1 - R[1] * H[0]\<close>.
\<close>

theorem interferometer_base_term_counterexample:
  "interferometer_cpp (sqrt \<circ> real_of_int) [0, 1, 1, 0] 2 (Some ((!) [0, 5, 0, 0])) = Some [1, 5, 0, - 1] \<and>
   [1, 5, 0, - 1] ! 3 \<noteq> [1, 5, 0, 0] ! 1 * 1 - [0, 1, 1, 0] ! 1 * [1, 5, 0, 0 :: real] ! 0"
  by (simp add: interferometer_fill_2_2)

text \<open>
  Claim C4 fails on the code. With \<open>R = [0, 1, 1, 0]\<close> and \<open>resolution = 2\<close>,
  \<open>interferometer_cpp\<close> returns the seed, then at offsets 1 and 2, whose bra and ket
  coordinates differ, whatever the block held there after \<open>malloc\<close> and \<open>memset\<close>, and
  at offset 3 what the block held there less the one correction. A block that holds
  \<open>[7, 8, 9, 10]\<close> gives \<open>[1, 8, 9, 9]\<close>: the rejected entries are 8 and 9, not 0.
\<close>

theorem interferometer_keeps_uninitialised_entries:
  "interferometer_cpp (sqrt \<circ> real_of_int) [0, 1, 1, 0] 2 (Some mem) = Some [1, mem 1, mem 2, mem 3 - 1]"
  by (simp add: interferometer_fill_2_2)

text \<open>
  Claim C9 fails on the code. \<open>two_mode_squeezing_cpp\<close> with a 4 by 4 matrix of zeros and
  \<open>resolution = 1\<close> returns the tensor \<open>[0]\<close> and has written one value, 0, to
  \<open>std::cout\<close>.
\<close>

theorem two_mode_squeezing_writes_to_cout:
  "two_mode_squeezing_cpp (sqrt \<circ> real_of_int) (replicate 16 0) 1 (Some mem) = Some ([0], [0])"
  using two_mode_squeezing_resolution_1 [of "sqrt \<circ> real_of_int" 0 mem] by simp

end
